theory Spec2Isabelle
  imports Main
begin

section \<open>JavaScript data used by the command-line front end\<close>

text \<open>
  Strings are lists of characters; one \<^typ>\<open>char\<close> stands for one code unit of a
  JavaScript string.  Only comparisons with the ASCII characters \<open>-\<close>, \<open>=\<close>, \<open>_\<close>,
  letters and digits occur in the code below.

  An option value has the TypeScript type \<^verbatim>\<open>string | string[] | boolean\<close>.
\<close>

datatype Value = Bool bool | Str string | Strs "string list"

text \<open>
  A plain object (\<^verbatim>\<open>Record<string, T>\<close>) and an ES \<^verbatim>\<open>Map<string, T>\<close> are both
  kept as the list of their entries in insertion order with pairwise distinct keys.
  \<open>assign obj k v\<close> is \<^verbatim>\<open>obj[k] = v\<close> and \<^verbatim>\<open>map.set(k, v)\<close>: an existing key keeps
  its position and gets the new value, a new key is added at the end.
\<close>

type_synonym 'v Object = "(string \<times> 'v) list"

fun assign :: "'v Object \<Rightarrow> string \<Rightarrow> 'v \<Rightarrow> 'v Object" where
  "assign [] k v = [(k, v)]"
| "assign ((k', v') # obj) k v =
     (if k' = k then (k, v) # obj else (k', v') # assign obj k v)"

definition hasOwn :: "'v Object \<Rightarrow> string \<Rightarrow> bool" where
  "hasOwn obj k = (k \<in> fst ` set obj)"

text \<open>\<^verbatim>\<open>s.startsWith(p)\<close>, \<^verbatim>\<open>s.split(c)[0]\<close> and \<^verbatim>\<open>s.indexOf(c)\<close>.\<close>

definition startsWith :: "string \<Rightarrow> string \<Rightarrow> bool" where
  "startsWith s p = (take (length p) s = p)"

definition splitFirst :: "string \<Rightarrow> char \<Rightarrow> string" where
  "splitFirst s c = takeWhile (\<lambda>d. d \<noteq> c) s"

definition indexOf :: "string \<Rightarrow> char \<Rightarrow> int" where
  "indexOf s c = (if c \<in> set s then int (length (takeWhile (\<lambda>d. d \<noteq> c) s)) else - 1)"

section \<open>The tokenizer: class \<open>Parser\<close> of \<open>lib/input/parser.ts\<close>\<close>

record Parser =
  args :: "string list"
  parsedOptions :: "Value Object"
  parsedCommands :: "string list"
  parsingErrors :: "string list"

record ParserResult =
  options :: "Value Object"
  commands :: "string list"
  errors :: "string list"

text \<open>
  \<open>isValidName\<close> tests the regular expression \<^verbatim>\<open>/^[a-z0-9][a-z0-9-_]*$/i\<close>: a letter
  or digit, followed by letters, digits, hyphens and underscores up to the end of the
  string.
\<close>

definition alnum :: "char \<Rightarrow> bool" where
  "alnum c = (c \<in> set ''abcdefghijklmnopqrstuvwxyzABCDEFGHIJKLMNOPQRSTUVWXYZ0123456789'')"

fun isValidName :: "string \<Rightarrow> bool" where
  "isValidName [] = False"
| "isValidName (c # cs) =
     (alnum c \<and> list_all (\<lambda>d. alnum d \<or> d = CHR ''-'' \<or> d = CHR ''_'') cs)"

text \<open>
  The loop that gathers the values of an option is written out three times in the source
  (once in \<open>parseLongArg\<close>, twice in \<open>parseShortArg\<close>), each time followed by the same
  three-way branch on the number of values.  \<open>collectValues\<close> is that loop,
  \<open>stored\<close> that branch.
\<close>

function collectValues :: "string list \<Rightarrow> nat \<Rightarrow> string list \<Rightarrow> nat \<times> string list" where
  "collectValues ts nextIndex values =
     (if nextIndex < length ts \<and> \<not> startsWith (ts ! nextIndex) ''-''
      then collectValues ts (nextIndex + 1) (values @ [ts ! nextIndex])
      else (nextIndex, values))"
  by pat_completeness auto
termination
  by (relation "measure (\<lambda>(ts, nextIndex, values). length ts - nextIndex)") auto

declare collectValues.simps [simp del]

definition stored :: "string list \<Rightarrow> Value" where
  "stored values =
     (if length values = 0 then Bool True
      else if length values = 1 then Str (values ! 0)
      else Strs values)"

definition setOption :: "string \<Rightarrow> Value \<Rightarrow> Parser \<Rightarrow> Parser" where
  "setOption key v this = this\<lparr>parsedOptions := assign (parsedOptions this) key v\<rparr>"

definition parseLongArg :: "string \<Rightarrow> nat \<Rightarrow> Parser \<Rightarrow> nat \<times> Parser" where
  "parseLongArg arg currentIndex this =
     (let argBody = drop 2 arg;
          equalIndex = indexOf argBody CHR ''=''
      in if equalIndex \<noteq> - 1 then
           (let key = take (nat equalIndex) argBody;
                v = drop (nat (equalIndex + 1)) argBody
            in (currentIndex, setOption key (Str v) this))
         else
           (let key = argBody;
                (nextIndex, values) = collectValues (args this) (currentIndex + 1) []
            in (nextIndex - 1, setOption key (stored values) this)))"

definition parseShortArg :: "string \<Rightarrow> nat \<Rightarrow> Parser \<Rightarrow> nat \<times> Parser" where
  "parseShortArg arg currentIndex this =
     (let flags = drop 1 arg
      in if length flags > 1 then
           (let this1 = fold (\<lambda>i. setOption [flags ! i] (Bool True)) [0..<length flags - 1] this;
                lastFlag = [flags ! (length flags - 1)];
                (nextIndex, values) = collectValues (args this) (currentIndex + 1) []
            in (nextIndex - 1, setOption lastFlag (stored values) this1))
         else
           (let flag = flags;
                (nextIndex, values) = collectValues (args this) (currentIndex + 1) []
            in (nextIndex - 1, setOption flag (stored values) this)))"

lemma collectValues_index: "n \<le> fst (collectValues ts n vs)"
proof (induction ts n vs rule: collectValues.induct)
  case (1 ts n vs)
  show ?case
  proof (cases "n < length ts \<and> \<not> startsWith (ts ! n) ''-''")
    case True
    with 1 have "n + 1 \<le> fst (collectValues ts (n + 1) (vs @ [ts ! n]))"
      by blast
    with True show ?thesis by (subst collectValues.simps) simp
  next
    case False
    then show ?thesis by (subst collectValues.simps) auto
  qed
qed

lemma args_setOption [simp]: "args (setOption key v this) = args this"
  by (simp add: setOption_def)

lemma args_fold_setOption [simp]:
  "args (fold (\<lambda>i. setOption (f i) v) is this) = args this"
  by (induction "is" arbitrary: this) simp_all

lemma parseLongArg_args: "args (snd (parseLongArg arg i this)) = args this"
  by (simp add: parseLongArg_def Let_def split: prod.split)

lemma parseShortArg_args: "args (snd (parseShortArg arg i this)) = args this"
  by (simp add: parseShortArg_def Let_def split: prod.split)

lemma parseLongArg_index: "i \<le> fst (parseLongArg arg i this)"
  using collectValues_index [of "i + 1" "args this" "[]"]
  by (auto simp: parseLongArg_def Let_def split: prod.split)

lemma parseShortArg_index: "i \<le> fst (parseShortArg arg i this)"
  using collectValues_index [of "i + 1" "args this" "[]"]
  by (auto simp: parseShortArg_def Let_def split: prod.split)

lemma parseLongArg_decreases:
  assumes "i < length (args this)" and "(i', this') = parseLongArg arg i this"
  shows "length (args this') - Suc i' < length (args this) - i"
proof -
  have "args this' = args this" and "i \<le> i'"
    using parseLongArg_args [of arg i this] parseLongArg_index [of i arg this]
    by (simp_all add: assms(2) [symmetric])
  with assms(1) show ?thesis by simp
qed

lemma parseShortArg_decreases:
  assumes "i < length (args this)" and "(i', this') = parseShortArg arg i this"
  shows "length (args this') - Suc i' < length (args this) - i"
proof -
  have "args this' = args this" and "i \<le> i'"
    using parseShortArg_args [of arg i this] parseShortArg_index [of i arg this]
    by (simp_all add: assms(2) [symmetric])
  with assms(1) show ?thesis by simp
qed

text \<open>The first loop of \<open>Parser.parse\<close>: the positional commands.\<close>

function commandLoop :: "nat \<Rightarrow> Parser \<Rightarrow> nat \<times> Parser" where
  "commandLoop i this =
     (if i < length (args this) \<and> \<not> startsWith (args this ! i) ''-''
      then commandLoop (i + 1) (this\<lparr>parsedCommands := parsedCommands this @ [args this ! i]\<rparr>)
      else (i, this))"
  by pat_completeness auto
termination
  by (relation "measure (\<lambda>(i, this). length (args this) - i)") auto

declare commandLoop.simps [simp del]

text \<open>
  The second loop of \<open>Parser.parse\<close>.  \<open>parseLongArg\<close> and \<open>parseShortArg\<close> return the
  index of the last token they used, and the loop header then adds one.
\<close>

function optionLoop :: "nat \<Rightarrow> Parser \<Rightarrow> Parser" where
  "optionLoop i this =
     (if i < length (args this) then
        (let arg = args this ! i
         in if startsWith arg ''--'' then
              (let key = splitFirst (drop 2 arg) CHR ''=''
               in if length key > 1 \<and> isValidName key then
                    (case parseLongArg arg i this of
                       (i', this') \<Rightarrow> optionLoop (i' + 1) this')
                  else optionLoop (i + 1) (this\<lparr>parsingErrors := parsingErrors this @ [arg]\<rparr>))
            else if startsWith arg ''-'' then
              (if length arg > 1 \<and> isValidName (drop 1 arg) then
                 (case parseShortArg arg i this of
                    (i', this') \<Rightarrow> optionLoop (i' + 1) this')
               else optionLoop (i + 1) (this\<lparr>parsingErrors := parsingErrors this @ [arg]\<rparr>))
            else optionLoop (i + 1) (this\<lparr>parsingErrors := parsingErrors this @ [arg]\<rparr>))
      else this)"
  by pat_completeness auto
termination
  by (relation "measure (\<lambda>(i, this). length (args this) - i)")
    (auto intro: parseLongArg_decreases parseShortArg_decreases)

declare optionLoop.simps [simp del]

definition Parser_parse :: "Parser \<Rightarrow> Parser" where
  "Parser_parse this = (case commandLoop 0 this of (i, this1) \<Rightarrow> optionLoop i this1)"

text \<open>The constructor drops the executable and the script path, then parses.\<close>

definition new_Parser :: "string list \<Rightarrow> Parser" where
  "new_Parser argv =
     Parser_parse \<lparr>args = drop 2 argv, parsedOptions = [], parsedCommands = [], parsingErrors = []\<rparr>"

definition getResult :: "Parser \<Rightarrow> ParserResult" where
  "getResult this =
     \<lparr>options = parsedOptions this, commands = parsedCommands this, errors = parsingErrors this\<rparr>"

text \<open>
  The two tests of the option loop that let a token through to \<open>parseLongArg\<close> and to
  \<open>parseShortArg\<close>; every other token of the option phase is pushed to the errors.
\<close>

definition longAccepted :: "string \<Rightarrow> bool" where
  "longAccepted a =
     (startsWith a ''--'' \<and>
      length (splitFirst (drop 2 a) CHR ''='') > 1 \<and> isValidName (splitFirst (drop 2 a) CHR ''=''))"

definition shortAccepted :: "string \<Rightarrow> bool" where
  "shortAccepted a =
     (\<not> startsWith a ''--'' \<and> startsWith a ''-'' \<and> length a > 1 \<and> isValidName (drop 1 a))"

text \<open>
  The key portion of a dash-prefixed token is what follows \<open>--\<close> up to the first \<open>=\<close>, or
  what follows the single \<open>-\<close>.  A malformed option token is a dash-prefixed token whose
  key portion fails the name grammar; \<open>--\<close>, \<open>-\<close> and \<open>---x\<close> are such tokens.
  \<open>tokenKeys\<close> are the option keys that the parsing of a token assigns.
\<close>

definition keyPortion :: "string \<Rightarrow> string" where
  "keyPortion a = (if startsWith a ''--'' then splitFirst (drop 2 a) CHR ''='' else drop 1 a)"

definition malformed :: "string \<Rightarrow> bool" where
  "malformed a = (startsWith a ''-'' \<and> \<not> isValidName (keyPortion a))"

definition tokenKeys :: "string \<Rightarrow> string list" where
  "tokenKeys a =
     (if startsWith a ''--'' then [splitFirst (drop 2 a) CHR ''='']
      else map (\<lambda>c. [c]) (drop 1 a))"



text \<open>
  A token that the option loop lets through, and a dash-prefixed token that it pushes to
  the errors.
\<close>

definition accepted :: "string \<Rightarrow> bool" where
  "accepted a = (longAccepted a \<or> shortAccepted a)"

definition rejected :: "string \<Rightarrow> bool" where
  "rejected a = (startsWith a ''-'' \<and> \<not> longAccepted a \<and> \<not> shortAccepted a)"

section \<open>Validators: \<open>runValidators\<close> of \<open>lib/utils\<close>\<close>

text \<open>
  A validator's \<open>validate\<close> function is a callback of the caller.  A call of it either
  returns a boolean, returns a promise (which is then fulfilled with a boolean or
  rejected), or throws.  A validator takes \<^verbatim>\<open>string | string[]\<close>.
\<close>

datatype error = TypeError string | Thrown string

datatype 'a Promise = Fulfilled 'a | Rejected error

datatype Returned = Plain bool | Awaitable "bool Promise" | Throws error

datatype Input = Text string | Texts "string list"

record Validator =
  validate :: "Input \<Rightarrow> Returned"
  message :: string

text \<open>
  \<^verbatim>\<open>const result = validator.validate(input);\<close>
  \<^verbatim>\<open>const isValid = result instanceof Promise ? await result : result;\<close>
  Inside the \<^verbatim>\<open>async\<close> function a throwing call and an awaited rejection both end
  the function with a rejected promise.
\<close>

definition isValid :: "Returned \<Rightarrow> error + bool" where
  "isValid result =
     (case result of
        Plain b \<Rightarrow> Inr b
      | Awaitable (Fulfilled b) \<Rightarrow> Inr b
      | Awaitable (Rejected e) \<Rightarrow> Inl e
      | Throws e \<Rightarrow> Inl e)"

fun validatorsLoop :: "Input \<Rightarrow> Validator list \<Rightarrow> string list \<Rightarrow> string list Promise" where
  "validatorsLoop input [] errs = Fulfilled errs"
| "validatorsLoop input (validator # rest) errs =
     (case isValid (validate validator input) of
        Inl e \<Rightarrow> Rejected e
      | Inr ok \<Rightarrow>
          validatorsLoop input rest
            (if \<not> ok \<and> message validator \<noteq> [] then errs @ [message validator] else errs))"

definition runValidators :: "Input \<Rightarrow> Validator list \<Rightarrow> string list Promise" where
  "runValidators input vs = validatorsLoop input vs []"

section \<open>The dispatcher: class \<open>Program\<close>\<close>

text \<open>
  Option and command declarations are objects of the caller.  The registry holds
  references to them, and \<^verbatim>\<open>processedOptions.includes(option)\<close> compares references, so
  a declaration is a reference into a heap of declaration objects.  The objects are not
  changed after they are registered.  The \<open>action\<close> callbacks are opaque: a call is
  recorded, with the declaration it belongs to and the argument it gets, and is taken to
  return normally without touching the program.
\<close>

type_synonym ref = nat

record ArgOptions =
  short :: "string option"
  long :: "string option"
  validators :: "Validator list option"
  defaultValue :: "string option"

record CommandOptions =
  name :: string

text \<open>
  \<open>CommandAction\<close> is \<^verbatim>\<open>command.action(commands.slice(1))\<close>, \<open>OptionAction\<close> is
  \<^verbatim>\<open>option.action(value)\<close> at the end of the loop over the parsed options, and
  \<open>DefaultAction\<close> is \<^verbatim>\<open>option.action(option.defaultValue)\<close> in the loop over the
  registered options.
\<close>

datatype call =
    CommandAction ref "string list"
  | OptionAction ref Value
  | DefaultAction ref string

text \<open>
  The fields \<open>options\<close>, \<open>commands\<close> and \<open>parsingErrors\<close> of the class carry the
  class name here, since the parser result has fields of the same names.
\<close>

record Program =
  Program_options :: "ref Object"
  Program_commands :: "ref Object"
  Program_parsingErrors :: "string list"
  unexpectedErrors :: "string list"
  validationErrors :: "string Object"
  parser :: Parser

definition new_Program :: "Parser \<Rightarrow> Program" where
  "new_Program p =
     \<lparr>Program_options = [], Program_commands = [], Program_parsingErrors = [],
      unexpectedErrors = [], validationErrors = [], parser = p\<rparr>"

definition Program_command :: "(ref \<Rightarrow> CommandOptions) \<Rightarrow> ref \<Rightarrow> Program \<Rightarrow> Program" where
  "Program_command heap c this =
     this\<lparr>Program_commands := assign (Program_commands this) (name (heap c)) c\<rparr>"

text \<open>\<^verbatim>\<open>if (options.short)\<close>: an absent or empty name is falsy.\<close>

definition truthy :: "string option \<Rightarrow> bool" where
  "truthy s = (case s of None \<Rightarrow> False | Some t \<Rightarrow> t \<noteq> [])"

definition Program_option :: "(ref \<Rightarrow> ArgOptions) \<Rightarrow> ref \<Rightarrow> Program \<Rightarrow> Program" where
  "Program_option heap r this =
     (let this1 = (if truthy (short (heap r))
                   then this\<lparr>Program_options :=
                          assign (Program_options this) (the (short (heap r))) r\<rparr>
                   else this);
          this2 = (if truthy (long (heap r))
                   then this1\<lparr>Program_options :=
                          assign (Program_options this1) (the (long (heap r))) r\<rparr>
                   else this1)
      in this2)"

text \<open>
  \<^verbatim>\<open>Object.entries\<close> lists the keys that are array indices (canonical decimal numerals
  below \<open>2\<^sup>3\<^sup>2 - 1\<close>) first, in ascending numeric order, and then the other keys in
  insertion order.
\<close>

definition digit :: "char \<Rightarrow> bool" where
  "digit c = (c \<in> set ''0123456789'')"

definition decimal :: "string \<Rightarrow> nat" where
  "decimal s = foldl (\<lambda>n c. 10 * n + (of_char c - 48)) 0 s"

definition isArrayIndex :: "string \<Rightarrow> bool" where
  "isArrayIndex k =
     (k \<noteq> [] \<and> list_all digit k \<and> (k = ''0'' \<or> hd k \<noteq> CHR ''0'') \<and> decimal k < 4294967295)"

definition Object_entries :: "'v Object \<Rightarrow> (string \<times> 'v) list" where
  "Object_entries obj =
     sort_key (\<lambda>(k, v). decimal k) (filter (\<lambda>(k, v). isArrayIndex k) obj) @
     filter (\<lambda>(k, v). \<not> isArrayIndex k) obj"

text \<open>
  \<^verbatim>\<open>options.hasOwnProperty(key)\<close> looks the method up on the parsed options themselves.
  When they have a key \<open>hasOwnProperty\<close> of their own, its value (\<open>true\<close>, a string or an
  array) is found instead of the method of \<open>Object.prototype\<close>, and calling it throws a
  \<open>TypeError\<close>.
\<close>

definition hasOwnProperty :: "Value Object \<Rightarrow> string \<Rightarrow> error + bool" where
  "hasOwnProperty obj k =
     (if hasOwn obj ''hasOwnProperty''
      then Inl (TypeError ''options.hasOwnProperty is not a function'')
      else Inr (hasOwn obj k))"

text \<open>\<^verbatim>\<open>typeof value === 'boolean' ? '' : value\<close> and \<^verbatim>\<open>errors.join(sep)\<close>.\<close>

definition validatorInput :: "Value \<Rightarrow> Input" where
  "validatorInput v = (case v of Bool b \<Rightarrow> Text [] | Str s \<Rightarrow> Text s | Strs ss \<Rightarrow> Texts ss)"

fun join :: "string list \<Rightarrow> string \<Rightarrow> string" where
  "join [] sep = []"
| "join [x] sep = x"
| "join (x # y # ys) sep = x @ sep @ join (y # ys) sep"

text \<open>
  What one call of \<open>Program.parse\<close> changes while it runs: the two error collections it
  writes in its loops, the local array \<open>processedOptions\<close>, and the calls made so far.
\<close>

record Dispatch =
  unexpected :: "string list"
  validation :: "string Object"
  processedOptions :: "ref list"
  calls :: "call list"

datatype exit = Finished | Broke | Raised error

text \<open>The loop over \<^verbatim>\<open>Object.entries(options)\<close>.\<close>

fun optionsLoop ::
  "(ref \<Rightarrow> ArgOptions) \<Rightarrow> ref Object \<Rightarrow> (string \<times> Value) list \<Rightarrow> Dispatch \<Rightarrow> exit \<times> Dispatch"
where
  "optionsLoop heap registry [] d = (Finished, d)"
| "optionsLoop heap registry ((key, v) # rest) d =
     (case map_of registry key of
        None \<Rightarrow> optionsLoop heap registry rest (d\<lparr>unexpected := unexpected d @ [key]\<rparr>)
      | Some r \<Rightarrow>
          if r \<in> set (processedOptions d) then optionsLoop heap registry rest d
          else
            (let d1 = d\<lparr>processedOptions := processedOptions d @ [r]\<rparr>;
                 d2 = d1\<lparr>calls := calls d1 @ [OptionAction r v]\<rparr>
             in case validators (heap r) of
                  None \<Rightarrow> optionsLoop heap registry rest d2
                | Some vs \<Rightarrow>
                    (case runValidators (validatorInput v) vs of
                       Rejected e \<Rightarrow> (Raised e, d1)
                     | Fulfilled errs \<Rightarrow>
                         if length errs > 0
                         then (Broke, d1\<lparr>validation :=
                                 assign (validation d1) key (join errs [CHR 0x0A])\<rparr>)
                         else optionsLoop heap registry rest d2)))"

text \<open>
  \<^verbatim>\<open>option.short && options.hasOwnProperty(option.short)\<close>, used as a condition: for an
  absent or empty name the method is not called.
\<close>

definition hasName :: "Value Object \<Rightarrow> string option \<Rightarrow> error + bool" where
  "hasName opts n = (if truthy n then hasOwnProperty opts (the n) else Inr False)"

text \<open>The loop over \<^verbatim>\<open>this.options.values()\<close> that applies the default values.\<close>

fun defaultsLoop ::
  "(ref \<Rightarrow> ArgOptions) \<Rightarrow> Value Object \<Rightarrow> ref list \<Rightarrow> Dispatch \<Rightarrow> error option \<times> Dispatch"
where
  "defaultsLoop heap opts [] d = (None, d)"
| "defaultsLoop heap opts (r # rest) d =
     (case hasName opts (short (heap r)) of
        Inl e \<Rightarrow> (Some e, d)
      | Inr hasShort \<Rightarrow>
          (case hasName opts (long (heap r)) of
             Inl e \<Rightarrow> (Some e, d)
           | Inr hasLong \<Rightarrow>
               if \<not> hasShort \<and> \<not> hasLong \<and> defaultValue (heap r) \<noteq> None then
                 if r \<in> set (processedOptions d) then defaultsLoop heap opts rest d
                 else defaultsLoop heap opts rest
                        (d\<lparr>processedOptions := processedOptions d @ [r],
                           calls := calls d @ [DefaultAction r (the (defaultValue (heap r)))]\<rparr>)
               else defaultsLoop heap opts rest d))"

text \<open>
  The result of one call of \<open>Program.parse\<close>: the promise it returns, the callbacks it
  has called, in order, and the program it leaves behind (also when the promise is
  rejected).
\<close>

record Outcome =
  returned :: "bool Promise"
  invoked :: "call list"
  program :: Program

definition settle :: "Program \<Rightarrow> string list \<Rightarrow> bool Promise \<Rightarrow> Dispatch \<Rightarrow> Outcome" where
  "settle this parsingErrs p d =
     \<lparr>returned = p, invoked = calls d,
      program = this\<lparr>Program_parsingErrors := parsingErrs,
                     unexpectedErrors := unexpected d,
                     validationErrors := validation d\<rparr>\<rparr>"

text \<open>
  The steps before the loops: the parsing errors are appended, and the first command is
  looked up; \<^verbatim>\<open>commands[0]\<close> of an empty array is \<open>undefined\<close>, which is no key of the
  map of commands.
\<close>

definition commandStep :: "Program \<Rightarrow> ParserResult \<Rightarrow> Dispatch" where
  "commandStep this result =
     (case (case commands result of [] \<Rightarrow> None | c # cs \<Rightarrow> map_of (Program_commands this) c) of
        None \<Rightarrow>
          \<lparr>unexpected = unexpectedErrors this @ [join (commands result) '' ''],
           validation = validationErrors this, processedOptions = [], calls = []\<rparr>
      | Some command \<Rightarrow>
          \<lparr>unexpected = unexpectedErrors this,
           validation = validationErrors this, processedOptions = [],
           calls = [CommandAction command (drop 1 (commands result))]\<rparr>)"

definition Program_parse :: "(ref \<Rightarrow> ArgOptions) \<Rightarrow> Program \<Rightarrow> Outcome" where
  "Program_parse heap this =
     (let result = getResult (parser this);
          parsingErrs = Program_parsingErrors this @ errors result;
          d0 = commandStep this result
      in case optionsLoop heap (Program_options this) (Object_entries (options result)) d0 of
           (Raised e, d1) \<Rightarrow> settle this parsingErrs (Rejected e) d1
         | (ex, d1) \<Rightarrow>
             (case defaultsLoop heap (options result) (map snd (Program_options this)) d1 of
                (Some e, d2) \<Rightarrow> settle this parsingErrs (Rejected e) d2
              | (None, d2) \<Rightarrow> settle this parsingErrs (Fulfilled (validation d2 \<noteq> [])) d2))"

text \<open>
  The declaration whose \<open>action\<close> a call invokes, and how often the action of a
  declaration is called in a list of calls.
\<close>

fun actionOf :: "call \<Rightarrow> ref option" where
  "actionOf (CommandAction c a) = None"
| "actionOf (OptionAction r v) = Some r"
| "actionOf (DefaultAction r s) = Some r"

definition timesInvoked :: "ref \<Rightarrow> call list \<Rightarrow> nat" where
  "timesInvoked r cs = length (filter (\<lambda>c. actionOf c = Some r) cs)"

definition onceEach :: "Dispatch \<Rightarrow> bool" where
  "onceEach d = (distinct (List.map_filter actionOf (calls d)) \<and>
                 set (List.map_filter actionOf (calls d)) \<subseteq> set (processedOptions d))"


text \<open>
  What \<open>Program.option\<close> maintains, given that declarations are not changed after they
  are registered: every key of the registry is a non-empty short or long name of the
  declaration it is bound to.
\<close>

definition registered :: "(ref \<Rightarrow> ArgOptions) \<Rightarrow> ref Object \<Rightarrow> bool" where
  "registered heap registry =
     list_all (\<lambda>(k, r). k \<noteq> [] \<and> (short (heap r) = Some k \<or> long (heap r) = Some k)) registry"

text \<open>One of the non-empty names of a declaration is a key of the parsed options.\<close>

definition supplied :: "ArgOptions \<Rightarrow> Value Object \<Rightarrow> bool" where
  "supplied decl opts =
     ((truthy (short decl) \<and> hasOwn opts (the (short decl))) \<or>
      (truthy (long decl) \<and> hasOwn opts (the (long decl))))"

section \<open>A sample registry\<close>

text \<open>
  Five declarations for the concrete runs below: \<open>-s\<close>/\<open>--long\<close> without validators,
  \<open>-m\<close>/\<open>--mode\<close> with a validator that fails with the message \<open>bad\<close>,
  \<open>-t\<close>/\<open>--timeout\<close> with a validator that throws and the default value \<open>60\<close>,
  \<open>-o\<close>/\<open>--opt\<close> with a validator that fails with an empty message, and
  \<open>-r\<close>/\<open>--retries\<close> with a failing validator and the default value \<open>3\<close>.
\<close>

definition failing :: Validator where
  "failing = \<lparr>validate = (\<lambda>input. Plain False), message = ''bad''\<rparr>"

definition throwing :: Validator where
  "throwing = \<lparr>validate = (\<lambda>input. Throws (Thrown ''boom'')), message = ''bad''\<rparr>"

definition silent :: Validator where
  "silent = \<lparr>validate = (\<lambda>input. Plain False), message = []\<rparr>"

definition declarations :: "ref \<Rightarrow> ArgOptions" where
  "declarations r =
     (if r = 0 then
        \<lparr>short = Some ''s'', long = Some ''long'', validators = None, defaultValue = None\<rparr>
      else if r = 1 then
        \<lparr>short = Some ''m'', long = Some ''mode'', validators = Some [failing],
         defaultValue = None\<rparr>
      else if r = 2 then
        \<lparr>short = Some ''t'', long = Some ''timeout'', validators = Some [throwing],
         defaultValue = Some ''60''\<rparr>
      else if r = 3 then
        \<lparr>short = Some ''o'', long = Some ''opt'', validators = Some [silent],
         defaultValue = None\<rparr>
      else
        \<lparr>short = Some ''r'', long = Some ''retries'', validators = Some [failing],
         defaultValue = Some ''3''\<rparr>)"

definition sample :: "ref list \<Rightarrow> string list \<Rightarrow> Program" where
  "sample rs argv = fold (Program_option declarations) rs (new_Program (new_Parser argv))"

text \<open>Concrete runs of the sample registry.\<close>

definition silentRun :: Program where
  "silentRun = sample [3, 0] [''node'', ''cli'', ''--opt'', ''x'', ''-s'']"

definition throwingRun :: Program where
  "throwingRun = sample [2] [''node'', ''cli'', ''--timeout'', ''5'']"

definition defaultRun :: Program where
  "defaultRun = sample [0, 4] [''node'', ''cli'', ''-s'']"

definition emptyValueRun :: Program where
  "emptyValueRun = sample [0, 4] [''node'', ''cli'', ''--retries='']"

definition abortedRun :: Program where
  "abortedRun = sample [2, 4] [''node'', ''cli'', ''--timeout'', ''5'']"

definition shadowedRun :: Program where
  "shadowedRun = sample [1, 4] [''node'', ''cli'', ''--mode'', ''x'', ''--hasOwnProperty'']"

section \<open>Properties of the tokenizer\<close>

lemmas tokenizer_eval =
  getResult_def new_Parser_def Parser_parse_def commandLoop.simps optionLoop.simps
  collectValues.simps parseLongArg_def parseShortArg_def startsWith_def splitFirst_def
  indexOf_def alnum_def stored_def setOption_def Let_def

text \<open>
  Claim C8.  After the executable and script entries are dropped, the argument list
  \<open>deploy --force -abc --d --timeout=120\<close> is tokenized into the command \<open>deploy\<close>, the
  options \<open>force\<close>, \<open>a\<close>, \<open>b\<close>, \<open>c\<close> (all \<open>true\<close>) and \<open>timeout\<close> (the string \<open>120\<close>),
  and the single error \<open>--d\<close>.
\<close>

theorem tokenize_deploy_example:
  "getResult (new_Parser
      [exe, script, ''deploy'', ''--force'', ''-abc'', ''--d'', ''--timeout=120'']) =
   \<lparr>options = [(''force'', Bool True), (''a'', Bool True), (''b'', Bool True),
                (''c'', Bool True), (''timeout'', Str ''120'')],
     commands = [''deploy''],
     errors = [''--d'']\<rparr>"
  by (simp add: tokenizer_eval)


text \<open>An invariant rule for the option loop, and what assignment does to an object.\<close>

lemma optionLoop_rule:
  assumes init: "P i this"
    and long: "\<And>i s. P i s \<Longrightarrow> i < length (args s) \<Longrightarrow> longAccepted (args s ! i) \<Longrightarrow>
        P (fst (parseLongArg (args s ! i) i s) + 1) (snd (parseLongArg (args s ! i) i s))"
    and short: "\<And>i s. P i s \<Longrightarrow> i < length (args s) \<Longrightarrow> shortAccepted (args s ! i) \<Longrightarrow>
        P (fst (parseShortArg (args s ! i) i s) + 1) (snd (parseShortArg (args s ! i) i s))"
    and err: "\<And>i s. P i s \<Longrightarrow> i < length (args s) \<Longrightarrow> \<not> longAccepted (args s ! i) \<Longrightarrow>
        \<not> shortAccepted (args s ! i) \<Longrightarrow>
        P (i + 1) (s\<lparr>parsingErrors := parsingErrors s @ [args s ! i]\<rparr>)"
    and final: "\<And>i s. P i s \<Longrightarrow> \<not> i < length (args s) \<Longrightarrow> Q s"
  shows "Q (optionLoop i this)"
  using init
proof (induction i this rule: optionLoop.induct)
  case (1 i this)
  show ?case
  proof (cases "i < length (args this)")
    case False
    then show ?thesis
      using final [OF "1.prems"] by (subst optionLoop.simps) simp
  next
    case inside: True
    let ?a = "args this ! i"
    consider (l) "longAccepted ?a" | (s) "shortAccepted ?a"
      | (e) "\<not> longAccepted ?a" "\<not> shortAccepted ?a" by blast
    then show ?thesis
    proof cases
      case l
      obtain i' this' where p: "parseLongArg ?a i this = (i', this')"
        by (cases "parseLongArg ?a i this")
      have "Q (optionLoop (i' + 1) this')"
        using l inside long [OF "1.prems" inside l] p
        by (intro "1.IH"(1) [OF inside refl _ refl _ p [symmetric]])
           (simp_all add: longAccepted_def)
      then show ?thesis
        using l inside p by (subst optionLoop.simps) (simp add: longAccepted_def Let_def)
    next
      case s
      obtain i' this' where p: "parseShortArg ?a i this = (i', this')"
        by (cases "parseShortArg ?a i this")
      have "Q (optionLoop (i' + 1) this')"
        using s inside short [OF "1.prems" inside s] p
        by (intro "1.IH"(3) [OF inside refl _ _ _ p [symmetric]])
           (simp_all add: shortAccepted_def)
      then show ?thesis
        using s inside p by (subst optionLoop.simps) (simp add: shortAccepted_def Let_def)
    next
      case e
      have next_ok: "P (i + 1) (this\<lparr>parsingErrors := parsingErrors this @ [?a]\<rparr>)"
        using err [OF "1.prems" inside e] .
      show ?thesis
      proof (cases "startsWith ?a ''--''")
        case True
        then have "Q (optionLoop (i + 1) (this\<lparr>parsingErrors := parsingErrors this @ [?a]\<rparr>))"
          using e inside next_ok
          by (intro "1.IH"(2) [OF inside refl _ refl]) (auto simp: longAccepted_def)
        then show ?thesis
          using True e inside by (subst optionLoop.simps) (auto simp: longAccepted_def Let_def)
      next
        case notlong: False
        show ?thesis
        proof (cases "startsWith ?a ''-''")
          case True
          then have "Q (optionLoop (i + 1) (this\<lparr>parsingErrors := parsingErrors this @ [?a]\<rparr>))"
            using e inside next_ok notlong
            by (intro "1.IH"(4) [OF inside refl]) (auto simp: shortAccepted_def)
          then show ?thesis
            using True notlong e inside
            by (subst optionLoop.simps) (auto simp: shortAccepted_def Let_def)
        next
          case False
          then have "Q (optionLoop (i + 1) (this\<lparr>parsingErrors := parsingErrors this @ [?a]\<rparr>))"
            using e inside next_ok notlong
            by (intro "1.IH"(5) [OF inside refl]) auto
          then show ?thesis
            using False notlong e inside
            by (subst optionLoop.simps) (auto simp: Let_def)
        qed
      qed
    qed
  qed
qed


lemma map_of_assign: "map_of (assign obj k v) = (map_of obj)(k \<mapsto> v)"
  by (induction obj) (auto simp: fun_eq_iff)

lemma keys_assign: "fst ` set (assign obj k v) = insert k (fst ` set obj)"
  by (induction obj) (force split: if_splits)+












lemma commandLoop_keeps:
  "parsedOptions (snd (commandLoop i s)) = parsedOptions s \<and>
   parsingErrors (snd (commandLoop i s)) = parsingErrors s \<and>
   args (snd (commandLoop i s)) = args s"
proof (induction i s rule: commandLoop.induct)
  case (1 i this)
  show ?case
  proof (cases "i < length (args this) \<and> \<not> startsWith (args this ! i) ''-''")
    case True
    with 1 show ?thesis by (subst (1 2 3) commandLoop.simps) simp
  next
    case False
    then show ?thesis by (subst (1 2 3) commandLoop.simps) auto
  qed
qed





lemma collectValues_skips:
  assumes "\<And>x. Q x \<Longrightarrow> startsWith x ''-''"
  shows "filter Q (drop (fst (collectValues ts n vs)) ts) = filter Q (drop n ts)"
proof (induction ts n vs rule: collectValues.induct)
  case (1 ts n vs)
  show ?case
  proof (cases "n < length ts \<and> \<not> startsWith (ts ! n) ''-''")
    case True
    then have "\<not> Q (ts ! n)" using assms by blast
    moreover have "drop n ts = ts ! n # drop (n + 1) ts"
      using True by (simp add: Cons_nth_drop_Suc)
    ultimately show ?thesis
      using True 1 by (subst collectValues.simps) simp
  next
    case False
    then show ?thesis by (subst collectValues.simps) auto
  qed
qed

lemma commandLoop_skips:
  assumes "\<And>x. Q x \<Longrightarrow> startsWith x ''-''"
  shows "filter Q (drop (fst (commandLoop i s)) (args s)) = filter Q (drop i (args s))"
proof (induction i s rule: commandLoop.induct)
  case (1 i this)
  show ?case
  proof (cases "i < length (args this) \<and> \<not> startsWith (args this ! i) ''-''")
    case True
    then have "\<not> Q (args this ! i)" using assms by blast
    moreover have "drop i (args this) = args this ! i # drop (i + 1) (args this)"
      using True by (simp add: Cons_nth_drop_Suc)
    ultimately show ?thesis
      using True 1 by (subst commandLoop.simps) simp
  next
    case False
    then show ?thesis by (subst commandLoop.simps) auto
  qed
qed

lemma collectValues_Suc:
  "Suc (fst (collectValues ts (Suc i) vs) - Suc 0) = fst (collectValues ts (Suc i) vs)"
  using collectValues_index [of "Suc i" ts vs] by simp

lemma parseLongArg_skips:
  assumes "\<And>x. Q x \<Longrightarrow> startsWith x ''-''" and "i < length (args s)" and "\<not> Q (args s ! i)"
  shows "filter Q (drop (fst (parseLongArg a i s) + 1) (args s)) = filter Q (drop i (args s))"
proof -
  have d: "drop i (args s) = args s ! i # drop (Suc i) (args s)"
    using assms(2) by (simp add: Cons_nth_drop_Suc)
  show ?thesis
    using collectValues_skips [of Q "args s" "Suc i" "[]", OF assms(1)] assms(3)
    by (simp add: parseLongArg_def Let_def d collectValues_Suc case_prod_beta)
qed

lemma parseShortArg_skips:
  assumes "\<And>x. Q x \<Longrightarrow> startsWith x ''-''" and "i < length (args s)" and "\<not> Q (args s ! i)"
  shows "filter Q (drop (fst (parseShortArg a i s) + 1) (args s)) = filter Q (drop i (args s))"
proof -
  have d: "drop i (args s) = args s ! i # drop (Suc i) (args s)"
    using assms(2) by (simp add: Cons_nth_drop_Suc)
  show ?thesis
    using collectValues_skips [of Q "args s" "Suc i" "[]", OF assms(1)] assms(3)
    by (simp add: parseShortArg_def Let_def d collectValues_Suc case_prod_beta)
qed

lemma errors_parseLongArg [simp]:
  "parsingErrors (snd (parseLongArg a i s)) = parsingErrors s"
  by (simp add: parseLongArg_def Let_def setOption_def case_prod_beta)

lemma errors_fold_setOption [simp]:
  "parsingErrors (fold (\<lambda>i. setOption (f i) v) js s) = parsingErrors s"
  by (induction js arbitrary: s) (simp_all add: setOption_def)

lemma errors_parseShortArg [simp]:
  "parsingErrors (snd (parseShortArg a i s)) = parsingErrors s"
  by (simp add: parseShortArg_def Let_def setOption_def case_prod_beta)

lemma dashed_errors:
  "filter (\<lambda>a. startsWith a ''-'') (errors (getResult (new_Parser argv))) =
   filter rejected (drop 2 argv)"
proof -
  let ?s0 = "\<lparr>args = drop 2 argv, parsedOptions = [], parsedCommands = [], parsingErrors = []\<rparr>"
  let ?i1 = "fst (commandLoop 0 ?s0)"
  let ?s1 = "snd (commandLoop 0 ?s0)"
  let ?P = "\<lambda>i s. args s = drop 2 argv \<and>
      filter (\<lambda>a. startsWith a ''-'') (parsingErrors s) @ filter rejected (drop i (drop 2 argv)) =
      filter rejected (drop 2 argv)"
  have dash: "\<And>x. rejected x \<Longrightarrow> startsWith x ''-''"
    by (simp add: rejected_def)
  have start: "?P ?i1 ?s1"
    using commandLoop_skips [of rejected 0 ?s0, OF dash] by (simp add: commandLoop_keeps)
  have "filter (\<lambda>a. startsWith a ''-'') (parsingErrors (optionLoop ?i1 ?s1)) =
      filter rejected (drop 2 argv)"
  proof (rule optionLoop_rule [where P = ?P, OF start])
    fix i and s :: Parser
    assume P: "?P i s" and i: "i < length (args s)" and acc: "longAccepted (args s ! i)"
    have "\<not> rejected (args s ! i)" using acc by (simp add: rejected_def)
    from parseLongArg_skips [of rejected i s, OF dash i this] P
    show "?P (fst (parseLongArg (args s ! i) i s) + 1) (snd (parseLongArg (args s ! i) i s))"
      by (simp add: parseLongArg_args)
  next
    fix i and s :: Parser
    assume P: "?P i s" and i: "i < length (args s)" and acc: "shortAccepted (args s ! i)"
    have "\<not> rejected (args s ! i)" using acc by (simp add: rejected_def)
    from parseShortArg_skips [of rejected i s, OF dash i this] P
    show "?P (fst (parseShortArg (args s ! i) i s) + 1) (snd (parseShortArg (args s ! i) i s))"
      by (simp add: parseShortArg_args)
  next
    fix i and s :: Parser
    assume P: "?P i s" and i: "i < length (args s)"
      and no: "\<not> longAccepted (args s ! i)" "\<not> shortAccepted (args s ! i)"
    have d: "drop i (args s) = args s ! i # drop (Suc i) (args s)"
      using i by (simp add: Cons_nth_drop_Suc)
    have "rejected (args s ! i) = startsWith (args s ! i) ''-''"
      using no by (simp add: rejected_def)
    with P d show "?P (i + 1) (s\<lparr>parsingErrors := parsingErrors s @ [args s ! i]\<rparr>)"
      by auto
  next
    fix i and s :: Parser
    assume "?P i s" and "\<not> i < length (args s)"
    then show "filter (\<lambda>a. startsWith a ''-'') (parsingErrors s) = filter rejected (drop 2 argv)"
      by auto
  qed
  then show ?thesis
    by (simp add: getResult_def new_Parser_def Parser_parse_def case_prod_beta)
qed


lemma count_list_filter:
  "count_list (filter P xs) t = (if P t then count_list xs t else 0)"
  by (induction xs) auto

lemma malformed_rejected: "malformed t \<Longrightarrow> rejected t"
  by (auto simp: malformed_def rejected_def keyPortion_def longAccepted_def shortAccepted_def
      split: if_splits)

lemma keys_setOption:
  "fst ` set (parsedOptions (setOption k v s)) = insert k (fst ` set (parsedOptions s))"
  by (simp add: setOption_def keys_assign)

lemma keys_fold_setOption:
  "fst ` set (parsedOptions (fold (\<lambda>i. setOption (f i) v) js s)) =
   f ` set js \<union> fst ` set (parsedOptions s)"
  by (induction js arbitrary: s) (auto simp: keys_setOption)

lemma long_key: "c \<in> set b \<Longrightarrow> take (nat (indexOf b c)) b = splitFirst b c"
  by (simp add: indexOf_def splitFirst_def takeWhile_eq_take [symmetric])

lemma indexOf_absent: "indexOf b c = - 1 \<longleftrightarrow> c \<notin> set b"
  by (simp add: indexOf_def)

lemma keys_parseLongArg:
  "fst ` set (parsedOptions (snd (parseLongArg a i s))) =
   insert (splitFirst (drop 2 a) CHR ''='') (fst ` set (parsedOptions s))"
proof (cases "CHR ''='' \<in> set (drop 2 a)")
  case True
  then show ?thesis
    by (simp add: parseLongArg_def Let_def indexOf_absent keys_setOption long_key)
next
  case False
  then have "splitFirst (drop 2 a) CHR ''='' = drop 2 a"
    by (auto simp: splitFirst_def)
  with False show ?thesis
    by (simp add: parseLongArg_def Let_def indexOf_absent keys_setOption case_prod_beta)
qed

lemma keys_parseShortArg:
  assumes "drop 1 a \<noteq> []"
  shows "fst ` set (parsedOptions (snd (parseShortArg a i s))) \<subseteq>
         (\<lambda>c. [c]) ` set (drop 1 a) \<union> fst ` set (parsedOptions s)"
proof (cases "length (drop 1 a) > 1")
  case True
  have "[drop 1 a ! j] \<in> (\<lambda>c. [c]) ` set (drop 1 a)" if "j < length (drop 1 a)" for j
    using that by (metis imageI nth_mem)
  then have "(\<lambda>j. [drop 1 a ! j]) ` set [0..<length (drop 1 a) - 1] \<subseteq> (\<lambda>c. [c]) ` set (drop 1 a)"
    and "[drop 1 a ! (length (drop 1 a) - 1)] \<in> (\<lambda>c. [c]) ` set (drop 1 a)"
    using True by auto
  with True show ?thesis
    by (simp add: parseShortArg_def Let_def keys_setOption keys_fold_setOption case_prod_beta
        del: drop_Suc_Cons) blast
next
  case False
  with assms obtain c where "drop 1 a = [c]"
    by (cases "drop 1 a"; cases "tl (drop 1 a)") auto
  with False show ?thesis
    by (simp add: parseShortArg_def Let_def keys_setOption case_prod_beta)
qed

lemma option_keys_provenance:
  "fst ` set (options (getResult (new_Parser argv))) \<subseteq>
   (\<Union>a\<in>{a \<in> set (drop 2 argv). accepted a}. set (tokenKeys a))"
proof -
  let ?s0 = "\<lparr>args = drop 2 argv, parsedOptions = [], parsedCommands = [], parsingErrors = []\<rparr>"
  let ?i1 = "fst (commandLoop 0 ?s0)"
  let ?s1 = "snd (commandLoop 0 ?s0)"
  let ?K = "\<Union>a\<in>{a \<in> set (drop 2 argv). accepted a}. set (tokenKeys a)"
  let ?P = "\<lambda>(i::nat) s. args s = drop 2 argv \<and> fst ` set (parsedOptions s) \<subseteq> ?K"
  have start: "?P ?i1 ?s1"
    by (simp add: commandLoop_keeps)
  have "fst ` set (parsedOptions (optionLoop ?i1 ?s1)) \<subseteq> ?K"
  proof (rule optionLoop_rule [where P = ?P, OF start])
    fix i and s :: Parser
    assume P: "?P i s" and i: "i < length (args s)" and acc: "longAccepted (args s ! i)"
    have "args s ! i \<in> set (drop 2 argv)"
      using P i by (metis nth_mem)
    moreover have "splitFirst (drop 2 (args s ! i)) CHR ''='' \<in> set (tokenKeys (args s ! i))"
      using acc by (simp add: tokenKeys_def longAccepted_def)
    ultimately have "splitFirst (drop 2 (args s ! i)) CHR ''='' \<in> ?K"
      using acc by (auto simp: accepted_def)
    with P show "?P (fst (parseLongArg (args s ! i) i s) + 1) (snd (parseLongArg (args s ! i) i s))"
      by (simp add: parseLongArg_args keys_parseLongArg)
  next
    fix i and s :: Parser
    assume P: "?P i s" and i: "i < length (args s)" and acc: "shortAccepted (args s ! i)"
    have mem: "args s ! i \<in> set (drop 2 argv)"
      using P i by (metis nth_mem)
    have ne: "drop 1 (args s ! i) \<noteq> []"
      using acc by (auto simp: shortAccepted_def)
    have "(\<lambda>c. [c]) ` set (drop 1 (args s ! i)) = set (tokenKeys (args s ! i))"
      using acc by (simp add: tokenKeys_def shortAccepted_def)
    then have k1: "(\<lambda>c. [c]) ` set (drop 1 (args s ! i)) \<subseteq> ?K"
      using acc mem by (auto simp: accepted_def)
    have k2: "fst ` set (parsedOptions s) \<subseteq> ?K"
      using P by simp
    have "fst ` set (parsedOptions (snd (parseShortArg (args s ! i) i s))) \<subseteq> ?K"
      by (rule order_trans [OF keys_parseShortArg [OF ne] Un_least [OF k1 k2]])
    with P show "?P (fst (parseShortArg (args s ! i) i s) + 1) (snd (parseShortArg (args s ! i) i s))"
      by (simp add: parseShortArg_args)
  next
    fix i and s :: Parser
    assume "?P i s"
    then show "?P (i + 1) (s\<lparr>parsingErrors := parsingErrors s @ [args s ! i]\<rparr>)"
      by simp
  next
    fix i and s :: Parser
    assume "?P i s"
    then show "fst ` set (parsedOptions s) \<subseteq> ?K" by simp
  qed
  then show ?thesis
    by (simp add: getResult_def new_Parser_def Parser_parse_def case_prod_beta)
qed

text \<open>
  Claim C7.  Let \<open>t\<close> be a malformed option token: a dash-prefixed token whose key portion
  fails the name grammar, such as \<open>--\<close>, \<open>-\<close>, \<open>---x\<close> or \<open>--x*=3\<close>.  For every argument
  list, \<open>t\<close> stands in the errors exactly as often as it stands in the argument list,
  as the whole original token, and it introduces no key: every key of the options is
  assigned by an accepted token of the argument list, which is a token other than \<open>t\<close>.
\<close>

theorem malformed_tokens_only_in_errors:
  assumes "malformed t"
  shows "count_list (errors (getResult (new_Parser argv))) t = count_list (drop 2 argv) t \<and>
         (\<forall>k\<in>fst ` set (options (getResult (new_Parser argv))).
            \<exists>a\<in>set (drop 2 argv). a \<noteq> t \<and> accepted a \<and> k \<in> set (tokenKeys a))"
proof -
  have rej: "rejected t"
    using assms by (rule malformed_rejected)
  then have dash: "startsWith t ''-''" and na: "\<not> accepted t"
    by (simp_all add: rejected_def accepted_def)
  have "count_list (errors (getResult (new_Parser argv))) t =
      count_list (filter (\<lambda>a. startsWith a ''-'') (errors (getResult (new_Parser argv)))) t"
    using dash by (simp add: count_list_filter)
  also have "\<dots> = count_list (filter rejected (drop 2 argv)) t"
    by (simp only: dashed_errors)
  also have "\<dots> = count_list (drop 2 argv) t"
    using rej by (simp add: count_list_filter)
  finally have one: "count_list (errors (getResult (new_Parser argv))) t = count_list (drop 2 argv) t" .
  have "\<forall>k\<in>fst ` set (options (getResult (new_Parser argv))).
            \<exists>a\<in>set (drop 2 argv). a \<noteq> t \<and> accepted a \<and> k \<in> set (tokenKeys a)"
  proof (intro ballI)
    fix k
    assume "k \<in> fst ` set (options (getResult (new_Parser argv)))"
    with option_keys_provenance [of argv]
    obtain a where a: "a \<in> set (drop 2 argv)" "accepted a" "k \<in> set (tokenKeys a)"
      by blast
    from a(2) na have "a \<noteq> t" by auto
    with a show "\<exists>a\<in>set (drop 2 argv). a \<noteq> t \<and> accepted a \<and> k \<in> set (tokenKeys a)"
      by (intro bexI [of _ a]) simp_all
  qed
  with one show ?thesis by (rule conjI)
qed

theorem malformed_tokens_only_in_errors_witness:
  "malformed ''--'' \<and> malformed ''-'' \<and> malformed ''---x'' \<and> malformed ''--x*=3'' \<and>
   getResult (new_Parser [''node'', ''cli'', ''run'', ''--x*=3'', ''v'', ''--'', ''-k'', ''w'', ''-'',
      ''---x'', ''--x*=3'']) =
     \<lparr>options = [(''k'', Str ''w'')], commands = [''run''],
      errors = [''--x*=3'', ''v'', ''--'', ''-'', ''---x'', ''--x*=3'']\<rparr> \<and>
   count_list (errors (getResult (new_Parser [''node'', ''cli'', ''run'', ''--x*=3'', ''v'', ''--'',
      ''-k'', ''w'', ''-'', ''---x'', ''--x*=3'']))) ''--x*=3'' = 2"
proof -
  have m: "malformed ''--x*=3''"
    by (simp add: malformed_def keyPortion_def tokenizer_eval)
  have others: "malformed ''--'' \<and> malformed ''-'' \<and> malformed ''---x''"
    by (simp add: malformed_def keyPortion_def tokenizer_eval)
  have run: "getResult (new_Parser [''node'', ''cli'', ''run'', ''--x*=3'', ''v'', ''--'', ''-k'', ''w'',
      ''-'', ''---x'', ''--x*=3'']) =
     \<lparr>options = [(''k'', Str ''w'')], commands = [''run''],
      errors = [''--x*=3'', ''v'', ''--'', ''-'', ''---x'', ''--x*=3'']\<rparr>"
    by (simp add: tokenizer_eval)
  from malformed_tokens_only_in_errors [OF m, of "[''node'', ''cli'', ''run'', ''--x*=3'', ''v'', ''--'',
      ''-k'', ''w'', ''-'', ''---x'', ''--x*=3'']"]
  have "count_list (errors (getResult (new_Parser [''node'', ''cli'', ''run'', ''--x*=3'', ''v'', ''--'',
      ''-k'', ''w'', ''-'', ''---x'', ''--x*=3'']))) ''--x*=3'' = 2"
    by simp
  with m others run show ?thesis by simp
qed

section \<open>Properties of the dispatcher\<close>

lemmas dispatcher_eval =
  Program_parse_def commandStep_def settle_def Program_option_def new_Program_def truthy_def
  hasName_def hasOwnProperty_def hasOwn_def Object_entries_def isArrayIndex_def digit_def
  decimal_def runValidators_def isValid_def validatorInput_def sample_def declarations_def
  failing_def throwing_def silent_def timesInvoked_def registered_def supplied_def

lemma distinct_filter_le: "distinct xs \<Longrightarrow> length (filter (\<lambda>x. x = r) xs) \<le> 1"
  by (induction xs) (auto simp: filter_empty_conv)

lemma Program_parse_unfold:
  "Program_parse heap this =
     (let result = getResult (parser this);
          parsingErrs = Program_parsingErrors this @ errors result;
          l = optionsLoop heap (Program_options this) (Object_entries (options result))
                (commandStep this result);
          t = defaultsLoop heap (options result) (map snd (Program_options this)) (snd l)
      in case fst l of
           Raised e \<Rightarrow> settle this parsingErrs (Rejected e) (snd l)
         | _ \<Rightarrow> (case fst t of
                   Some e \<Rightarrow> settle this parsingErrs (Rejected e) (snd t)
                 | None \<Rightarrow> settle this parsingErrs (Fulfilled (validation (snd t) \<noteq> [])) (snd t)))"
  by (simp add: Program_parse_def Let_def split: prod.split exit.split option.split)

lemma unexpected_optionsLoop:
  "\<exists>us. unexpected (snd (optionsLoop heap registry es d)) = unexpected d @ us"
proof (induction es arbitrary: d)
  case Nil
  then show ?case by simp
next
  case (Cons a es)
  obtain key v where a: "a = (key, v)" by (cases a)
  have step: "\<exists>us. unexpected (snd (optionsLoop heap registry es d')) = unexpected d @ us"
    if "\<exists>vs. unexpected d' = unexpected d @ vs" for d'
    using that Cons.IH [of d'] by auto
  show ?case
    unfolding a
    by (auto simp: Let_def intro!: step split: option.split Promise.split)
qed

lemma unexpected_defaultsLoop [simp]:
  "unexpected (snd (defaultsLoop heap opts rs d)) = unexpected d"
  by (induction rs arbitrary: d) (auto simp: Let_def split: sum.split)

lemma commandAction_optionsLoop:
  "CommandAction c a \<in> set (calls (snd (optionsLoop heap registry es d))) \<Longrightarrow>
   CommandAction c a \<in> set (calls d)"
proof (induction es arbitrary: d)
  case Nil
  then show ?case by simp
next
  case (Cons x es)
  obtain key v where x: "x = (key, v)" by (cases x)
  show ?case
    using Cons.prems unfolding x
    by (auto simp: Let_def dest!: Cons.IH split: option.splits Promise.splits if_splits)
qed

lemma commandAction_defaultsLoop:
  "CommandAction c a \<in> set (calls (snd (defaultsLoop heap opts rs d))) \<Longrightarrow>
   CommandAction c a \<in> set (calls d)"
proof (induction rs arbitrary: d)
  case Nil
  then show ?case by simp
next
  case (Cons r rs)
  show ?case
    using Cons.prems
    by (auto simp: Let_def dest!: Cons.IH split: sum.splits if_splits)
qed

lemma map_filter_append: "List.map_filter f (xs @ ys) = List.map_filter f xs @ List.map_filter f ys"
  by (simp add: List.map_filter_def)

lemma onceEach_optionsLoop: "onceEach d \<Longrightarrow> onceEach (snd (optionsLoop heap registry es d))"
proof (induction es arbitrary: d)
  case Nil
  then show ?case by simp
next
  case (Cons a es)
  obtain key v where a: "a = (key, v)" by (cases a)
  have u: "onceEach (d\<lparr>unexpected := unexpected d @ [key]\<rparr>)"
    using Cons.prems by (simp add: onceEach_def)
  have p1: "onceEach (d\<lparr>processedOptions := processedOptions d @ [r]\<rparr>)" for r
    using Cons.prems by (auto simp: onceEach_def)
  have p2: "r \<notin> set (processedOptions d) \<Longrightarrow>
      onceEach (d\<lparr>processedOptions := processedOptions d @ [r], calls := calls d @ [OptionAction r v]\<rparr>)" for r
    using Cons.prems by (auto simp: onceEach_def map_filter_append List.map_filter_simps)
  have p3: "onceEach (d\<lparr>processedOptions := processedOptions d @ [r], validation := x\<rparr>)" for r x
    using Cons.prems by (auto simp: onceEach_def)
  show ?case
    unfolding a
    by (auto simp: Let_def u p1 p2 p3 Cons.prems intro!: Cons.IH split: option.split Promise.split)
qed

lemma onceEach_defaultsLoop: "onceEach d \<Longrightarrow> onceEach (snd (defaultsLoop heap opts rs d))"
proof (induction rs arbitrary: d)
  case Nil
  then show ?case by simp
next
  case (Cons r rs)
  have p2: "r \<notin> set (processedOptions d) \<Longrightarrow>
      onceEach (d\<lparr>processedOptions := processedOptions d @ [r], calls := calls d @ [DefaultAction r s]\<rparr>)" for s
    using Cons.prems by (auto simp: onceEach_def map_filter_append List.map_filter_simps)
  show ?case
    by (auto simp: Let_def p2 Cons.prems intro!: Cons.IH split: sum.split)
qed

lemma onceEach_commandStep: "onceEach (commandStep this result)"
  by (simp add: commandStep_def onceEach_def List.map_filter_simps split: option.split list.split)

lemma timesInvoked_le: "onceEach d \<Longrightarrow> timesInvoked r (calls d) \<le> 1"
proof -
  assume "onceEach d"
  then have "distinct (List.map_filter actionOf (calls d))" by (simp add: onceEach_def)
  then have "length (filter (\<lambda>x. x = r) (List.map_filter actionOf (calls d))) \<le> 1"
    by (rule distinct_filter_le)
  moreover have "length (filter (\<lambda>x. x = r) (List.map_filter actionOf cs)) = timesInvoked r cs" for cs
    by (induction cs) (auto simp: timesInvoked_def List.map_filter_simps split: option.split)
  ultimately show ?thesis by simp
qed


text \<open>
  Claim C4.  One call of \<open>Program.parse\<close> calls the action of a declaration at most once.
  This holds for every declaration and every parser result, so in particular for a
  declaration registered under a short and a long name when both spellings are keys of
  the parsed options.
\<close>

theorem action_at_most_once:
  "timesInvoked r (invoked (Program_parse heap this)) \<le> 1"
proof -
  let ?result = "getResult (parser this)"
  let ?l = "optionsLoop heap (Program_options this) (Object_entries (options ?result))
              (commandStep this ?result)"
  let ?t = "defaultsLoop heap (options ?result) (map snd (Program_options this)) (snd ?l)"
  have l: "onceEach (snd ?l)"
    by (rule onceEach_optionsLoop [OF onceEach_commandStep])
  then have t: "onceEach (snd ?t)"
    by (rule onceEach_defaultsLoop)
  have "invoked (Program_parse heap this) = calls (snd ?l) \<or>
        invoked (Program_parse heap this) = calls (snd ?t)"
    by (simp add: Program_parse_unfold Let_def settle_def split: exit.split option.split)
  then show ?thesis
    using timesInvoked_le [OF l, of r] timesInvoked_le [OF t, of r] by auto
qed

theorem action_at_most_once_witness:
  "invoked (Program_parse declarations (sample [0] [''node'', ''cli'', ''run'', ''-s'', ''--long''])) =
     [OptionAction 0 (Bool True)] \<and>
   timesInvoked 0
     (invoked (Program_parse declarations (sample [0] [''node'', ''cli'', ''run'', ''-s'', ''--long''])))
     \<le> 1"
  using action_at_most_once [of 0 declarations "sample [0] [''node'', ''cli'', ''run'', ''-s'', ''--long'']"]
  by (simp add: dispatcher_eval tokenizer_eval)

text \<open>
  Claim C10.  When the parser result has no commands, \<open>Program.parse\<close> appends the empty
  string to \<open>unexpectedErrors\<close> (followed only by what the loop over the options adds) and
  calls no command action, whatever commands are registered.
\<close>

theorem empty_commands_unexpected:
  assumes "commands (getResult (parser this)) = []"
  shows "(\<exists>us. unexpectedErrors (program (Program_parse heap this)) =
               unexpectedErrors this @ [[]] @ us) \<and>
         (\<forall>c a. CommandAction c a \<notin> set (invoked (Program_parse heap this)))"
proof -
  let ?result = "getResult (parser this)"
  have d0: "commandStep this ?result =
       \<lparr>unexpected = unexpectedErrors this @ [[]], validation = validationErrors this,
        processedOptions = [], calls = []\<rparr>"
    using assms by (simp add: commandStep_def)
  let ?l = "optionsLoop heap (Program_options this) (Object_entries (options ?result))
              (commandStep this ?result)"
  obtain us where us: "unexpected (snd ?l) = (unexpectedErrors this @ [[]]) @ us"
    using unexpected_optionsLoop [of heap "Program_options this" "Object_entries (options ?result)"
        "commandStep this ?result"] by (auto simp: d0)
  have "unexpectedErrors (program (Program_parse heap this)) = unexpected (snd ?l)"
    by (simp add: Program_parse_unfold Let_def settle_def split: exit.split option.split)
  with us have one: "\<exists>us. unexpectedErrors (program (Program_parse heap this)) =
               unexpectedErrors this @ [[]] @ us" by simp
  have none: "CommandAction c a \<notin> set (calls (snd ?l))" for c a
    using commandAction_optionsLoop [of c a heap "Program_options this"
        "Object_entries (options ?result)" "commandStep this ?result"] by (auto simp: d0)
  have "CommandAction c a \<notin> set (invoked (Program_parse heap this))" for c a
    using none [of c a] commandAction_defaultsLoop [of c a heap "options ?result"
        "map snd (Program_options this)" "snd ?l"]
    by (auto simp: Program_parse_unfold Let_def settle_def split: exit.split option.split)
  with one show ?thesis by blast
qed


theorem empty_commands_unexpected_witness:
  "commands (getResult (parser (sample [0] [''node'', ''cli'', ''-s'']))) = [] \<and>
   unexpectedErrors (sample [0] [''node'', ''cli'', ''-s'']) = [] \<and>
   unexpectedErrors (program (Program_parse declarations (sample [0] [''node'', ''cli'', ''-s'']))) =
     [[]] \<and>
   invoked (Program_parse declarations (sample [0] [''node'', ''cli'', ''-s''])) =
     [OptionAction 0 (Bool True)]"
proof -
  have none: "commands (getResult (parser (sample [0] [''node'', ''cli'', ''-s'']))) = []"
    by (simp add: dispatcher_eval tokenizer_eval)
  have "\<exists>us. unexpectedErrors (program (Program_parse declarations
            (sample [0] [''node'', ''cli'', ''-s'']))) =
          unexpectedErrors (sample [0] [''node'', ''cli'', ''-s'']) @ [[]] @ us"
    using empty_commands_unexpected [OF none, of declarations] by blast
  then show ?thesis
    using none by (simp add: dispatcher_eval tokenizer_eval)
qed

text \<open>
  Claim C9.  \<open>Program.option\<close> has no error case.  After it, the non-empty short and long
  names of the new declaration are bound to the new declaration, and every other key
  keeps the binding it had: a key of an earlier declaration that the new one does not
  carry still maps to the earlier declaration.
\<close>

theorem option_rebinds_only_its_keys:
  "map_of (Program_options (Program_option heap r this)) k =
     (if k \<noteq> [] \<and> (short (heap r) = Some k \<or> long (heap r) = Some k) then Some r
      else map_of (Program_options this) k)"
  by (auto simp: Program_option_def Let_def map_of_assign truthy_def split: option.splits)


theorem option_rebinds_only_its_keys_witness:
  "map_of (Program_options (Program_option (declarations(4 := \<lparr>short = Some ''s'', long = None,
       validators = None, defaultValue = None\<rparr>)) 4 (sample [0] []))) ''s'' = Some 4 \<and>
   map_of (Program_options (Program_option (declarations(4 := \<lparr>short = Some ''s'', long = None,
       validators = None, defaultValue = None\<rparr>)) 4 (sample [0] []))) ''long'' = Some 0"
  using option_rebinds_only_its_keys [of "declarations(4 := \<lparr>short = Some ''s'', long = None,
       validators = None, defaultValue = None\<rparr>)" 4 "sample [0] []" "''s''"]
    option_rebinds_only_its_keys [of "declarations(4 := \<lparr>short = Some ''s'', long = None,
       validators = None, defaultValue = None\<rparr>)" 4 "sample [0] []" "''long''"]
  by (simp add: dispatcher_eval tokenizer_eval)

lemma validatorsLoop_messages:
  "\<forall>u\<in>set vs. \<exists>ok. isValid (validate u input) = Inr ok \<Longrightarrow>
   validatorsLoop input vs errs =
     Fulfilled (errs @ map message
        (filter (\<lambda>u. isValid (validate u input) = Inr False \<and> message u \<noteq> []) vs))"
  by (induction vs arbitrary: errs) auto

lemma validatorsLoop_rejects:
  "\<forall>w\<in>set vs1. \<exists>ok. isValid (validate w input) = Inr ok \<Longrightarrow>
   isValid (validate u input) = Inl e \<Longrightarrow>
   validatorsLoop input (vs1 @ u # vs2) errs = Rejected e"
  by (induction vs1 arbitrary: errs) auto

lemma optionsLoop_append:
  "optionsLoop heap registry (pre @ es) d =
     (case optionsLoop heap registry pre d of
        (Finished, d1) \<Rightarrow> optionsLoop heap registry es d1
      | other \<Rightarrow> other)"
proof (induction pre arbitrary: d)
  case Nil
  then show ?case by simp
next
  case (Cons a pre)
  obtain key v where a: "a = (key, v)" by (cases a)
  show ?case
    unfolding a by (simp add: Let_def Cons.IH split: option.split Promise.split)
qed

lemma optionsLoop_entry:
  assumes "optionsLoop heap registry pre d0 = (Finished, d1)"
    and "map_of registry key = Some r"
    and "r \<notin> set (processedOptions d1)"
    and "validators (heap r) = Some vs"
    and "\<forall>u\<in>set vs. \<exists>ok. isValid (validate u (validatorInput v)) = Inr ok"
  shows "optionsLoop heap registry (pre @ (key, v) # post) d0 =
     (if \<exists>u\<in>set vs. isValid (validate u (validatorInput v)) = Inr False \<and> message u \<noteq> []
      then (Broke, d1\<lparr>processedOptions := processedOptions d1 @ [r],
                      validation := assign (validation d1) key
                        (join (map message (filter (\<lambda>u. isValid (validate u (validatorInput v)) = Inr False
                                   \<and> message u \<noteq> []) vs)) [CHR 0x0A])\<rparr>)
      else optionsLoop heap registry post
             (d1\<lparr>processedOptions := processedOptions d1 @ [r],
                 calls := calls d1 @ [OptionAction r v]\<rparr>))"
proof -
  have "runValidators (validatorInput v) vs =
      Fulfilled (map message (filter (\<lambda>u. isValid (validate u (validatorInput v)) = Inr False
                                   \<and> message u \<noteq> []) vs))"
    using validatorsLoop_messages [OF assms(5), of "[]"] by (simp add: runValidators_def)
  then show ?thesis
    using assms(1-4) by (auto simp: optionsLoop_append Let_def filter_empty_conv)
qed


text \<open>
  Claim C1, as the code has it.  \<open>runValidators\<close> collects a message only for a validator
  that fails and has a non-empty message, and \<open>Program.parse\<close> takes the option as failed
  only when a message was collected.  So for an entry that the loop reaches, whose
  declaration has validators none of which throws or rejects: if some failing validator
  has a non-empty message, the loop stops, the joined messages are stored under the key
  and the action is not called; otherwise (all failing validators have empty messages)
  the action is called with the value and the loop goes on with the next entry.
\<close>

theorem validation_fails_only_with_message:
  assumes "optionsLoop heap registry pre d0 = (Finished, d1)"
    and "map_of registry key = Some r"
    and "r \<notin> set (processedOptions d1)"
    and "validators (heap r) = Some vs"
    and "\<forall>u\<in>set vs. \<exists>ok. isValid (validate u (validatorInput v)) = Inr ok"
  shows "optionsLoop heap registry (pre @ (key, v) # post) d0 =
     (if \<exists>u\<in>set vs. isValid (validate u (validatorInput v)) = Inr False \<and> message u \<noteq> []
      then (Broke, d1\<lparr>processedOptions := processedOptions d1 @ [r],
                      validation := assign (validation d1) key
                        (join (map message (filter (\<lambda>u. isValid (validate u (validatorInput v)) = Inr False
                                   \<and> message u \<noteq> []) vs)) [CHR 0x0A])\<rparr>)
      else optionsLoop heap registry post
             (d1\<lparr>processedOptions := processedOptions d1 @ [r],
                 calls := calls d1 @ [OptionAction r v]\<rparr>))"
  using assms by (rule optionsLoop_entry)

theorem validation_fails_only_with_message_witness:
  "map_of (Program_options silentRun) ''opt'' = Some 3 \<and>
   validators (declarations 3) = Some [silent] \<and>
   optionsLoop declarations (Program_options silentRun)
     ([] @ (''opt'', Str ''x'') # [(''s'', Bool True)])
     (commandStep silentRun (getResult (parser silentRun))) =
   optionsLoop declarations (Program_options silentRun) [(''s'', Bool True)]
     ((commandStep silentRun (getResult (parser silentRun)))
        \<lparr>processedOptions := [3], calls := [OptionAction 3 (Str ''x'')]\<rparr>)"
proof -
  let ?d0 = "commandStep silentRun (getResult (parser silentRun))"
  have h1: "optionsLoop declarations (Program_options silentRun) [] ?d0 = (Finished, ?d0)"
    by simp
  have h2: "map_of (Program_options silentRun) ''opt'' = Some 3"
    by (simp add: silentRun_def dispatcher_eval tokenizer_eval)
  have h3: "3 \<notin> set (processedOptions ?d0)"
    by (simp add: commandStep_def split: option.split list.split)
  have h4: "validators (declarations 3) = Some [silent]"
    by (simp add: declarations_def)
  have h5: "\<forall>u\<in>set [silent]. \<exists>ok. isValid (validate u (validatorInput (Str ''x''))) = Inr ok"
    by (auto simp: silent_def isValid_def)
  have d: "processedOptions ?d0 = []" "calls ?d0 = []"
    by (simp_all add: silentRun_def dispatcher_eval tokenizer_eval)
  from validation_fails_only_with_message [OF h1 h2 h3 h4 h5, of "[(''s'', Bool True)]"]
  have "optionsLoop declarations (Program_options silentRun)
     ([] @ (''opt'', Str ''x'') # [(''s'', Bool True)]) ?d0 =
   optionsLoop declarations (Program_options silentRun) [(''s'', Bool True)]
     (?d0\<lparr>processedOptions := [3], calls := [OptionAction 3 (Str ''x'')]\<rparr>)"
    by (simp add: d silent_def isValid_def)
  with h2 h4 show ?thesis by blast
qed

text \<open>
  Claim C1 as stated fails: the declaration \<open>-o\<close>/\<open>--opt\<close> has a validator that returns
  \<open>false\<close> and has the empty message; for \<open>--opt x -s\<close> its action is called all the same,
  the later option \<open>-s\<close> is processed, and no validation error is recorded.
\<close>

theorem silent_failure_counterexample:
  "validators (declarations 3) = Some [silent] \<and>
   validate silent (validatorInput (Str ''x'')) = Plain False \<and> message silent = [] \<and>
   options (getResult (parser silentRun)) = [(''opt'', Str ''x''), (''s'', Bool True)] \<and>
   Program_options silentRun = [(''o'', 3), (''opt'', 3), (''s'', 0), (''long'', 0)] \<and>
   invoked (Program_parse declarations silentRun) =
     [OptionAction 3 (Str ''x''), OptionAction 0 (Bool True)] \<and>
   validationErrors (program (Program_parse declarations silentRun)) = [] \<and>
   returned (Program_parse declarations silentRun) = Fulfilled False"
  by (simp add: silentRun_def dispatcher_eval tokenizer_eval)

text \<open>
  Claim C2, as the code has it.  Neither \<open>runValidators\<close> nor \<open>Program.parse\<close> catches
  anything.  When the loop reaches an entry whose declaration has a validator that throws
  or whose promise is rejected (the validators before it having returned booleans), the
  promise returned by \<open>Program.parse\<close> is rejected with that error; nothing is recorded in
  \<open>validationErrors\<close>, and no action is called after the ones called before that entry:
  not the action of the option, not those of later options, and no default.
\<close>

theorem validator_rejection_propagates:
  assumes "Object_entries (options (getResult (parser this))) = pre @ (key, v) # post"
    and "optionsLoop heap (Program_options this) pre (commandStep this (getResult (parser this))) =
           (Finished, d1)"
    and "map_of (Program_options this) key = Some r"
    and "r \<notin> set (processedOptions d1)"
    and "validators (heap r) = Some (vs1 @ u # vs2)"
    and "\<forall>w\<in>set vs1. \<exists>ok. isValid (validate w (validatorInput v)) = Inr ok"
    and "isValid (validate u (validatorInput v)) = Inl e"
  shows "returned (Program_parse heap this) = Rejected e \<and>
         invoked (Program_parse heap this) = calls d1 \<and>
         validationErrors (program (Program_parse heap this)) = validation d1 \<and>
         unexpectedErrors (program (Program_parse heap this)) = unexpected d1"
proof -
  have "runValidators (validatorInput v) (vs1 @ u # vs2) = Rejected e"
    using validatorsLoop_rejects [OF assms(6,7)] by (simp add: runValidators_def)
  then have "optionsLoop heap (Program_options this) (pre @ (key, v) # post)
        (commandStep this (getResult (parser this))) =
      (Raised e, d1\<lparr>processedOptions := processedOptions d1 @ [r]\<rparr>)"
    using assms(2-5) by (simp add: optionsLoop_append Let_def)
  then show ?thesis
    by (simp add: Program_parse_def Let_def assms(1) settle_def)
qed


theorem validator_rejection_propagates_witness:
  "Object_entries (options (getResult (parser throwingRun))) = [] @ (''timeout'', Str ''5'') # [] \<and>
   map_of (Program_options throwingRun) ''timeout'' = Some 2 \<and>
   validators (declarations 2) = Some ([] @ throwing # []) \<and>
   isValid (validate throwing (validatorInput (Str ''5''))) = Inl (Thrown ''boom'') \<and>
   returned (Program_parse declarations throwingRun) = Rejected (Thrown ''boom'') \<and>
   invoked (Program_parse declarations throwingRun) = [] \<and>
   validationErrors (program (Program_parse declarations throwingRun)) = []"
proof -
  let ?d0 = "commandStep throwingRun (getResult (parser throwingRun))"
  have h1: "Object_entries (options (getResult (parser throwingRun))) =
      [] @ (''timeout'', Str ''5'') # []"
    by (simp add: throwingRun_def dispatcher_eval tokenizer_eval)
  have h2: "optionsLoop declarations (Program_options throwingRun) [] ?d0 = (Finished, ?d0)"
    by simp
  have h3: "map_of (Program_options throwingRun) ''timeout'' = Some 2"
    by (simp add: throwingRun_def dispatcher_eval tokenizer_eval)
  have h4: "2 \<notin> set (processedOptions ?d0)"
    by (simp add: commandStep_def split: option.split list.split)
  have h5: "validators (declarations 2) = Some ([] @ throwing # [])"
    by (simp add: declarations_def)
  have h6: "\<forall>w\<in>set []. \<exists>ok. isValid (validate w (validatorInput (Str ''5''))) = Inr ok"
    by simp
  have h7: "isValid (validate throwing (validatorInput (Str ''5''))) = Inl (Thrown ''boom'')"
    by (simp add: throwing_def isValid_def)
  have d: "calls ?d0 = []" "validation ?d0 = []"
    by (simp_all add: throwingRun_def dispatcher_eval tokenizer_eval)
  from validator_rejection_propagates [OF h1 h2 h3 h4 h5 h6 h7] h1 h3 h5 h7
  show ?thesis by (simp add: d)
qed

text \<open>
  Claim C2 as stated fails: for \<open>--timeout 5\<close>, where the validator of \<open>--timeout\<close> throws,
  the call of \<open>Program.parse\<close> ends with a rejected promise and records no validation
  error.
\<close>

theorem validator_rejection_counterexample:
  "validators (declarations 2) = Some [throwing] \<and>
   validate throwing (validatorInput (Str ''5'')) = Throws (Thrown ''boom'') \<and>
   options (getResult (parser throwingRun)) = [(''timeout'', Str ''5'')] \<and>
   returned (Program_parse declarations throwingRun) = Rejected (Thrown ''boom'') \<and>
   validationErrors (program (Program_parse declarations throwingRun)) = []"
  by (simp add: throwingRun_def dispatcher_eval tokenizer_eval)

lemma list_all_assign: "list_all P obj \<Longrightarrow> P (k, v) \<Longrightarrow> list_all P (assign obj k v)"
  by (induction obj) auto

lemma registered_new_Program: "registered heap (Program_options (new_Program p))"
  by (simp add: registered_def new_Program_def)

lemma registered_Program_option:
  "registered heap (Program_options this) \<Longrightarrow>
   registered heap (Program_options (Program_option heap r this))"
  by (auto simp: registered_def Program_option_def Let_def truthy_def
      intro!: list_all_assign split: option.splits)

lemma registered_key:
  "registered heap registry \<Longrightarrow> map_of registry k = Some r \<Longrightarrow>
   k \<noteq> [] \<and> (short (heap r) = Some k \<or> long (heap r) = Some k)"
  by (auto simp: registered_def list_all_iff dest!: map_of_SomeD)

lemma set_Object_entries: "set (Object_entries obj) = set obj"
  by (auto simp: Object_entries_def)

lemma registered_supplied:
  assumes "registered heap registry" and "map_of registry k = Some r" and "hasOwn opts k"
  shows "supplied (heap r) opts"
  using registered_key [OF assms(1,2)] assms(3) by (auto simp: supplied_def truthy_def)

lemma processed_optionsLoop:
  "r \<in> set (processedOptions (snd (optionsLoop heap registry es d))) \<Longrightarrow>
   r \<in> set (processedOptions d) \<or> (\<exists>(k, v)\<in>set es. map_of registry k = Some r)"
proof (induction es arbitrary: d)
  case Nil
  then show ?case by simp
next
  case (Cons a es)
  obtain key v where a: "a = (key, v)" by (cases a)
  show ?case
    using Cons.prems unfolding a
    by (auto simp: Let_def dest!: Cons.IH split: option.splits Promise.splits if_splits)
qed

lemma optionsLoop_no_raise:
  "\<forall>(k, v)\<in>set es. \<forall>r vs. map_of registry k = Some r \<longrightarrow> validators (heap r) = Some vs \<longrightarrow>
      (\<forall>u\<in>set vs. \<exists>ok. isValid (validate u (validatorInput v)) = Inr ok) \<Longrightarrow>
   fst (optionsLoop heap registry es d) \<noteq> Raised e"
proof (induction es arbitrary: d)
  case Nil
  then show ?case by simp
next
  case (Cons a es)
  obtain key v where a: "a = (key, v)" by (cases a)
  have rest: "fst (optionsLoop heap registry es d') \<noteq> Raised e" for d'
    using Cons.prems by (intro Cons.IH) auto
  have run: "runValidators (validatorInput v) vs \<noteq> Rejected e'"
    if "map_of registry key = Some r" "validators (heap r) = Some vs" for r vs e'
  proof -
    have "\<forall>u\<in>set vs. \<exists>ok. isValid (validate u (validatorInput v)) = Inr ok"
      using Cons.prems that unfolding a by auto
    from validatorsLoop_messages [OF this, of "[]"] show ?thesis
      by (simp add: runValidators_def)
  qed
  show ?case
    unfolding a using run
    by (auto simp: Let_def rest split: option.split Promise.split)
qed

lemma defaultsLoop_no_raise:
  "\<not> hasOwn opts ''hasOwnProperty'' \<Longrightarrow> fst (defaultsLoop heap opts rs d) = None"
  by (induction rs arbitrary: d) (auto simp: hasName_def hasOwnProperty_def)

lemma hasName_absent:
  "\<not> hasOwn opts ''hasOwnProperty'' \<Longrightarrow> \<not> supplied decl opts \<Longrightarrow>
   hasName opts (short decl) = Inr False \<and> hasName opts (long decl) = Inr False"
  by (auto simp: hasName_def hasOwnProperty_def supplied_def)

lemma hasName_supplied:
  "supplied decl opts \<Longrightarrow>
   hasName opts (short decl) \<noteq> Inr False \<or> hasName opts (long decl) \<noteq> Inr False"
  by (auto simp: hasName_def hasOwnProperty_def supplied_def)

lemma calls_defaultsLoop_mono:
  "c \<in> set (calls d) \<Longrightarrow> c \<in> set (calls (snd (defaultsLoop heap opts rs d)))"
  by (induction rs arbitrary: d) (auto simp: Let_def split: sum.split)

lemma defaultsLoop_fires:
  assumes "hasName opts (short (heap r)) = Inr False" and "hasName opts (long (heap r)) = Inr False"
    and "defaultValue (heap r) = Some dv" and "\<not> hasOwn opts ''hasOwnProperty''"
  shows "r \<in> set rs \<Longrightarrow> r \<notin> set (processedOptions d) \<Longrightarrow>
         DefaultAction r dv \<in> set (calls (snd (defaultsLoop heap opts rs d)))"
proof (induction rs arbitrary: d)
  case Nil
  then show ?case by simp
next
  case (Cons x rs)
  show ?case
  proof (cases "x = r")
    case True
    then show ?thesis
      using assms(1-3) Cons.prems(2) by (simp add: calls_defaultsLoop_mono)
  next
    case False
    with Cons.prems have "r \<in> set rs" by simp
    moreover have "hasName opts n \<noteq> Inl e'" for n e'
      using assms(4) by (simp add: hasName_def hasOwnProperty_def)
    ultimately show ?thesis
      using False Cons.prems(2) by (auto simp: Let_def intro!: Cons.IH split: sum.split)
  qed
qed

lemma defaultAction_defaultsLoop:
  "DefaultAction r dv \<in> set (calls (snd (defaultsLoop heap opts rs d))) \<Longrightarrow>
   DefaultAction r dv \<in> set (calls d) \<or>
   (hasName opts (short (heap r)) = Inr False \<and> hasName opts (long (heap r)) = Inr False)"
proof (induction rs arbitrary: d)
  case Nil
  then show ?case by simp
next
  case (Cons x rs)
  show ?case
    using Cons.prems
    by (auto simp: Let_def dest!: Cons.IH split: sum.splits if_splits)
qed

lemma defaultAction_optionsLoop:
  "DefaultAction r dv \<in> set (calls (snd (optionsLoop heap registry es d))) \<Longrightarrow>
   DefaultAction r dv \<in> set (calls d)"
proof (induction es arbitrary: d)
  case Nil
  then show ?case by simp
next
  case (Cons x es)
  obtain key v where x: "x = (key, v)" by (cases x)
  show ?case
    using Cons.prems unfolding x
    by (auto simp: Let_def dest!: Cons.IH split: option.splits Promise.splits if_splits)
qed

lemma optionsLoop_heap_cong:
  "\<forall>(k, v)\<in>set es. \<forall>r. map_of registry k = Some r \<longrightarrow> heap' r = heap r \<Longrightarrow>
   optionsLoop heap' registry es d = optionsLoop heap registry es d"
proof (induction es arbitrary: d)
  case Nil
  then show ?case by simp
next
  case (Cons x es)
  obtain key v where x: "x = (key, v)" by (cases x)
  have rest: "optionsLoop heap' registry es d' = optionsLoop heap registry es d'" for d'
    using Cons.prems by (intro Cons.IH) auto
  have "heap' r = heap r" if "map_of registry key = Some r" for r
    using Cons.prems that unfolding x by auto
  then show ?case
    unfolding x by (auto simp: Let_def rest split: option.split Promise.split)
qed

lemma defaultsLoop_validators:
  "defaultsLoop (heap(r := heap r\<lparr>validators := vs\<rparr>)) opts rs d = defaultsLoop heap opts rs d"
  by (induction rs arbitrary: d) (auto simp: Let_def split: sum.split)

lemma singleton_filter:
  "length xs \<le> 1 \<Longrightarrow> x \<in> set xs \<Longrightarrow> xs = [x]"
  by (cases xs) auto


lemma processed_commandStep [simp]: "processedOptions (commandStep this result) = []"
  by (simp add: commandStep_def split: option.split list.split)

lemma defaultAction_commandStep [simp]: "DefaultAction r dv \<notin> set (calls (commandStep this result))"
  by (simp add: commandStep_def split: option.split list.split)

text \<open>
  Claim C5, as the code has it.  Take a declaration that is in the registry and has a
  default value, and a call of \<open>Program.parse\<close> that gets through both loops: no validator
  of an option matched in the first loop throws or rejects (such an error ends the call
  before the defaults are applied), and the parsed options have no key \<open>hasOwnProperty\<close>.
  Then the promise is fulfilled, and
  \<^item> if none of the non-empty names of the declaration is a key of the parsed options
    (whatever the values are), the one call of its action is the call with the default
    value, and its validators play no part: replacing them by any others, also by ones
    that throw, changes nothing in the outcome;
  \<^item> if one of its names is a key, its action is never called with the default value.
\<close>

theorem default_value_action:
  assumes reg: "registered heap (Program_options this)"
    and r: "r \<in> snd ` set (Program_options this)"
    and dv: "defaultValue (heap r) = Some dv"
    and nohop: "\<not> hasOwn (options (getResult (parser this))) ''hasOwnProperty''"
    and norej: "\<forall>(k, v)\<in>set (options (getResult (parser this))). \<forall>r' vs.
        map_of (Program_options this) k = Some r' \<longrightarrow> validators (heap r') = Some vs \<longrightarrow>
        (\<forall>u\<in>set vs. \<exists>ok. isValid (validate u (validatorInput v)) = Inr ok)"
  shows "(\<exists>b. returned (Program_parse heap this) = Fulfilled b) \<and>
         (if supplied (heap r) (options (getResult (parser this)))
          then \<forall>d. DefaultAction r d \<notin> set (invoked (Program_parse heap this))
          else filter (\<lambda>c. actionOf c = Some r) (invoked (Program_parse heap this)) =
                 [DefaultAction r dv] \<and>
               (\<forall>vs'. Program_parse (heap(r := heap r\<lparr>validators := vs'\<rparr>)) this =
                      Program_parse heap this))"
proof -
  let ?opts = "options (getResult (parser this))"
  let ?registry = "Program_options this"
  let ?d0 = "commandStep this (getResult (parser this))"
  let ?l = "optionsLoop heap ?registry (Object_entries ?opts) ?d0"
  let ?t = "defaultsLoop heap ?opts (map snd ?registry) (snd ?l)"
  have noraise: "fst ?l \<noteq> Raised e" for e
    using norej by (intro optionsLoop_no_raise) (simp add: set_Object_entries)
  have none: "fst ?t = None"
    using nohop by (rule defaultsLoop_no_raise)
  have parse: "Program_parse heap this =
      settle this (Program_parsingErrors this @ errors (getResult (parser this)))
        (Fulfilled (validation (snd ?t) \<noteq> [])) (snd ?t)"
    using noraise none by (simp add: Program_parse_unfold Let_def split: exit.split)
  then have inv: "invoked (Program_parse heap this) = calls (snd ?t)"
    and ret: "\<exists>b. returned (Program_parse heap this) = Fulfilled b"
    by (simp_all add: settle_def)
  have once: "onceEach (snd ?t)"
    by (intro onceEach_defaultsLoop onceEach_optionsLoop onceEach_commandStep)
  show ?thesis
  proof (cases "supplied (heap r) ?opts")
    case True
    have "DefaultAction r d \<notin> set (calls (snd ?t))" for d
    proof
      assume "DefaultAction r d \<in> set (calls (snd ?t))"
      then have "DefaultAction r d \<in> set (calls (snd ?l))"
        using defaultAction_defaultsLoop [of r d heap ?opts "map snd ?registry" "snd ?l"]
          hasName_supplied [OF True] by blast
      then have "DefaultAction r d \<in> set (calls ?d0)"
        by (rule defaultAction_optionsLoop)
      then show False by simp
    qed
    with True ret show ?thesis by (simp add: inv)
  next
    case False
    have unmatched: "map_of ?registry k \<noteq> Some r" if "(k, v) \<in> set (Object_entries ?opts)" for k v
    proof
      assume "map_of ?registry k = Some r"
      moreover have "hasOwn ?opts k"
        using that by (force simp: hasOwn_def set_Object_entries)
      ultimately show False
        using registered_supplied [OF reg] False by blast
    qed
    have "r \<notin> set (processedOptions (snd ?l))"
      using processed_optionsLoop [of r heap ?registry "Object_entries ?opts" ?d0] unmatched
      by auto
    moreover have "r \<in> set (map snd ?registry)"
      using r by simp
    ultimately have mem: "DefaultAction r dv \<in> set (calls (snd ?t))"
      using hasName_absent [OF nohop False] dv nohop by (intro defaultsLoop_fires) simp_all
    have "length (filter (\<lambda>c. actionOf c = Some r) (calls (snd ?t))) \<le> 1"
      using timesInvoked_le [OF once, of r] by (simp add: timesInvoked_def)
    moreover have "DefaultAction r dv \<in> set (filter (\<lambda>c. actionOf c = Some r) (calls (snd ?t)))"
      using mem by simp
    ultimately have one: "filter (\<lambda>c. actionOf c = Some r) (calls (snd ?t)) = [DefaultAction r dv]"
      by (rule singleton_filter)
    have "Program_parse (heap(r := heap r\<lparr>validators := vs'\<rparr>)) this = Program_parse heap this"
      for vs'
    proof -
      have eq: "optionsLoop (heap(r := heap r\<lparr>validators := vs'\<rparr>)) ?registry
                  (Object_entries ?opts) ?d0 = ?l"
        using unmatched by (intro optionsLoop_heap_cong) auto
      show ?thesis
        unfolding Program_parse_unfold Let_def defaultsLoop_validators eq by (rule refl)
    qed
    with False ret one show ?thesis by (simp add: inv)
  qed
qed


theorem default_value_action_witness:
  "registered declarations (Program_options defaultRun) \<and>
   4 \<in> snd ` set (Program_options defaultRun) \<and>
   defaultValue (declarations 4) = Some ''3'' \<and>
   \<not> hasOwn (options (getResult (parser defaultRun))) ''hasOwnProperty'' \<and>
   \<not> supplied (declarations 4) (options (getResult (parser defaultRun))) \<and>
   invoked (Program_parse declarations defaultRun) =
     [OptionAction 0 (Bool True), DefaultAction 4 ''3''] \<and>
   filter (\<lambda>c. actionOf c = Some 4) (invoked (Program_parse declarations defaultRun)) =
     [DefaultAction 4 ''3''] \<and>
   options (getResult (parser emptyValueRun)) = [(''retries'', Str [])] \<and>
   supplied (declarations 4) (options (getResult (parser emptyValueRun))) \<and>
   (\<forall>d. DefaultAction 4 d \<notin> set (invoked (Program_parse declarations emptyValueRun)))"
proof -
  have e1: "registered declarations (Program_options emptyValueRun)"
    by (simp add: emptyValueRun_def dispatcher_eval tokenizer_eval)
  have e2: "4 \<in> snd ` set (Program_options emptyValueRun)"
    by (simp add: emptyValueRun_def dispatcher_eval tokenizer_eval)
  have e4: "\<not> hasOwn (options (getResult (parser emptyValueRun))) ''hasOwnProperty''"
    by (simp add: emptyValueRun_def dispatcher_eval tokenizer_eval)
  have e5: "\<forall>(k, v)\<in>set (options (getResult (parser emptyValueRun))). \<forall>r' vs.
        map_of (Program_options emptyValueRun) k = Some r' \<longrightarrow>
        validators (declarations r') = Some vs \<longrightarrow>
        (\<forall>u\<in>set vs. \<exists>ok. isValid (validate u (validatorInput v)) = Inr ok)"
    by (auto simp: emptyValueRun_def dispatcher_eval tokenizer_eval)
  have eo: "options (getResult (parser emptyValueRun)) = [(''retries'', Str [])]"
    by (simp add: emptyValueRun_def dispatcher_eval tokenizer_eval)
  have es: "supplied (declarations 4) (options (getResult (parser emptyValueRun)))"
    by (simp add: emptyValueRun_def dispatcher_eval tokenizer_eval)
  have h1: "registered declarations (Program_options defaultRun)"
    by (simp add: defaultRun_def dispatcher_eval tokenizer_eval)
  have h2: "4 \<in> snd ` set (Program_options defaultRun)"
    by (simp add: defaultRun_def dispatcher_eval tokenizer_eval)
  have h3: "defaultValue (declarations 4) = Some ''3''"
    by (simp add: declarations_def)
  have h4: "\<not> hasOwn (options (getResult (parser defaultRun))) ''hasOwnProperty''"
    by (simp add: defaultRun_def dispatcher_eval tokenizer_eval)
  have h5: "\<forall>(k, v)\<in>set (options (getResult (parser defaultRun))). \<forall>r' vs.
        map_of (Program_options defaultRun) k = Some r' \<longrightarrow>
        validators (declarations r') = Some vs \<longrightarrow>
        (\<forall>u\<in>set vs. \<exists>ok. isValid (validate u (validatorInput v)) = Inr ok)"
    by (simp add: defaultRun_def dispatcher_eval tokenizer_eval)
  have ns: "\<not> supplied (declarations 4) (options (getResult (parser defaultRun)))"
    by (simp add: defaultRun_def dispatcher_eval tokenizer_eval)
  have all: "invoked (Program_parse declarations defaultRun) =
      [OptionAction 0 (Bool True), DefaultAction 4 ''3'']"
    by (simp add: defaultRun_def dispatcher_eval tokenizer_eval)
  from default_value_action [OF h1 h2 h3 h4 h5] ns
  have once: "filter (\<lambda>c. actionOf c = Some 4) (invoked (Program_parse declarations defaultRun)) =
     [DefaultAction 4 ''3'']"
    by simp
  from default_value_action [OF e1 e2 h3 e4 e5] es
  have never: "\<forall>d. DefaultAction 4 d \<notin> set (invoked (Program_parse declarations emptyValueRun))"
    by simp
  from h1 h2 h3 h4 ns all once eo es never show ?thesis by blast
qed

text \<open>
  Claim C5 as stated fails: with \<open>--timeout 5\<close>, where the validator of \<open>--timeout\<close> throws,
  the declaration \<open>-r\<close>/\<open>--retries\<close> is registered, has the default value \<open>3\<close> and none of
  its names is supplied, but its action is not called: the call of \<open>Program.parse\<close> has
  ended before the loop over the defaults.
\<close>

theorem default_after_rejection_counterexample:
  "Program_options abortedRun = [(''t'', 2), (''timeout'', 2), (''r'', 4), (''retries'', 4)] \<and>
   options (getResult (parser abortedRun)) = [(''timeout'', Str ''5'')] \<and>
   defaultValue (declarations 4) = Some ''3'' \<and>
   returned (Program_parse declarations abortedRun) = Rejected (Thrown ''boom'') \<and>
   invoked (Program_parse declarations abortedRun) = []"
  by (simp add: abortedRun_def dispatcher_eval tokenizer_eval)


lemma optionAction_defaultsLoop:
  "OptionAction r v \<in> set (calls (snd (defaultsLoop heap opts rs d))) \<Longrightarrow>
   OptionAction r v \<in> set (calls d)"
proof (induction rs arbitrary: d)
  case Nil
  then show ?case by simp
next
  case (Cons x rs)
  show ?case
    using Cons.prems
    by (auto simp: Let_def dest!: Cons.IH split: sum.splits if_splits)
qed

lemma validation_defaultsLoop [simp]:
  "validation (snd (defaultsLoop heap opts rs d)) = validation d"
  by (induction rs arbitrary: d) (auto simp: Let_def split: sum.split)

lemma assign_not_Nil [simp]: "assign obj k v \<noteq> []"
  by (cases obj) (auto split: if_splits)

lemma failed_validation_then_defaults:
  assumes reg: "registered heap (Program_options this)"
    and entries: "Object_entries (options (getResult (parser this))) = pre @ (key, v) # post"
    and reach: "optionsLoop heap (Program_options this) pre
                  (commandStep this (getResult (parser this))) = (Finished, d1)"
    and lookup: "map_of (Program_options this) key = Some r"
    and fresh: "r \<notin> set (processedOptions d1)"
    and vs: "validators (heap r) = Some vs"
    and bools: "\<forall>u\<in>set vs. \<exists>ok. isValid (validate u (validatorInput v)) = Inr ok"
    and fails: "\<exists>u\<in>set vs. isValid (validate u (validatorInput v)) = Inr False \<and> message u \<noteq> []"
    and nohop: "\<not> hasOwn (options (getResult (parser this))) ''hasOwnProperty''"
  shows "returned (Program_parse heap this) = Fulfilled True \<and>
         (\<forall>r' v'. OptionAction r' v' \<in> set (invoked (Program_parse heap this)) \<longrightarrow>
                  OptionAction r' v' \<in> set (calls d1)) \<and>
         (\<forall>r' dv'. r' \<in> snd ` set (Program_options this) \<longrightarrow> defaultValue (heap r') = Some dv' \<longrightarrow>
                   \<not> supplied (heap r') (options (getResult (parser this))) \<longrightarrow>
                   DefaultAction r' dv' \<in> set (invoked (Program_parse heap this)))"
proof -
  let ?opts = "options (getResult (parser this))"
  let ?registry = "Program_options this"
  let ?d0 = "commandStep this (getResult (parser this))"
  define msgs where "msgs = join (map message (filter (\<lambda>u. isValid (validate u (validatorInput v)) = Inr False
                                   \<and> message u \<noteq> []) vs)) [CHR 0x0A]"
  define dB where "dB = d1\<lparr>processedOptions := processedOptions d1 @ [r],
                      validation := assign (validation d1) key msgs\<rparr>"
  let ?t = "defaultsLoop heap ?opts (map snd ?registry) dB"
  have l: "optionsLoop heap ?registry (Object_entries ?opts) ?d0 = (Broke, dB)"
    using optionsLoop_entry [OF reach lookup fresh vs bools, of post] fails
    by (simp add: entries dB_def msgs_def)
  have none: "fst ?t = None"
    using nohop by (rule defaultsLoop_no_raise)
  have parse: "Program_parse heap this =
      settle this (Program_parsingErrors this @ errors (getResult (parser this)))
        (Fulfilled (validation (snd ?t) \<noteq> [])) (snd ?t)"
    using none by (simp add: Program_parse_unfold Let_def l)
  have ret: "returned (Program_parse heap this) = Fulfilled True"
    by (simp add: parse settle_def dB_def)
  have inv: "invoked (Program_parse heap this) = calls (snd ?t)"
    by (simp add: parse settle_def)
  have a: "OptionAction r' v' \<in> set (calls d1)" if "OptionAction r' v' \<in> set (calls (snd ?t))" for r' v'
    using optionAction_defaultsLoop [OF that] by (simp add: dB_def)
  have b: "DefaultAction r' dv' \<in> set (calls (snd ?t))"
    if r': "r' \<in> snd ` set ?registry" and dv': "defaultValue (heap r') = Some dv'"
      and ns: "\<not> supplied (heap r') ?opts" for r' dv'
  proof -
    have unmatched: "map_of ?registry k \<noteq> Some r'" if "(k, w) \<in> set (Object_entries ?opts)" for k w
    proof
      assume "map_of ?registry k = Some r'"
      moreover have "hasOwn ?opts k"
        using that by (force simp: hasOwn_def set_Object_entries)
      ultimately show False
        using registered_supplied [OF reg] ns by blast
    qed
    have "r' \<noteq> r"
      using unmatched [of key v] lookup by (auto simp: entries)
    moreover have "r' \<notin> set (processedOptions d1)"
      using processed_optionsLoop [of r' heap ?registry pre ?d0] unmatched
      by (auto simp: reach entries)
    ultimately have "r' \<notin> set (processedOptions dB)"
      by (simp add: dB_def)
    moreover have "r' \<in> set (map snd ?registry)"
      using r' by simp
    ultimately show ?thesis
      using hasName_absent [OF nohop ns] dv' nohop by (intro defaultsLoop_fires) simp_all
  qed
  show ?thesis
    using ret a b by (simp add: inv)
qed

text \<open>
  Claim C3 on the code.  When no key \<open>hasOwnProperty\<close> is among the parsed options, the
  code does what the claim says (\<open>failed_validation_then_defaults\<close> above): after the
  entry that fails validation no further supplied option has its action called, and each
  registered declaration with a default value and no supplied name gets the call with its
  default.  With \<open>--mode x --hasOwnProperty\<close> it does not: \<open>--mode\<close> fails validation, and
  the loop over the defaults then calls \<^verbatim>\<open>options.hasOwnProperty\<close>, which is the value
  \<open>true\<close> of the parsed option and no function.  The call of \<open>Program.parse\<close> ends with a
  \<open>TypeError\<close>, and the default of \<open>-r\<close>/\<open>--retries\<close> is never applied.
\<close>

theorem defaults_lost_when_hasOwnProperty_supplied:
  "options (getResult (parser shadowedRun)) =
     [(''mode'', Str ''x''), (''hasOwnProperty'', Bool True)] \<and>
   Program_options shadowedRun = [(''m'', 1), (''mode'', 1), (''r'', 4), (''retries'', 4)] \<and>
   validationErrors (program (Program_parse declarations shadowedRun)) = [(''mode'', ''bad'')] \<and>
   defaultValue (declarations 4) = Some ''3'' \<and>
   \<not> supplied (declarations 4) (options (getResult (parser shadowedRun))) \<and>
   returned (Program_parse declarations shadowedRun) =
     Rejected (TypeError ''options.hasOwnProperty is not a function'') \<and>
   invoked (Program_parse declarations shadowedRun) = []"
  by (simp add: shadowedRun_def dispatcher_eval tokenizer_eval)


end
